theory Spec2Isabelle
  imports Complex_Main "HOL-Library.Multiset"
begin

section \<open>Random outcomes\<close>

text \<open>
  The templates of \<^verbatim>\<open>random.h\<close> draw from the generator through \<^verbatim>\<open>random2\<close> and
  \<^verbatim>\<open>x_chance_in_y\<close>. A call that draws is modelled by the finite list of results it can
  return, each with its probability: a computation of type \<open>'a dist\<close>. A function that
  returns the same result whatever the generator delivers is a list with one outcome.

  The loops of the next sections add weights in \<open>int\<close>, without a bound. The program
  adds them in a C++ \<^verbatim>\<open>int\<close>; the section on the sums in a 32-bit \<^verbatim>\<open>int\<close> gives the
  three loops whose distribution depends on the total with every sum as the compiled
  program computes it. For non-negative weights every sum the loops compute lies between
  0 and the total weight, so within the range of \<^verbatim>\<open>int\<close> the two agree.
\<close>

type_synonym 'a dist = "('a \<times> rat) list"

definition return_dist :: "'a \<Rightarrow> 'a dist" where
  "return_dist x = [(x, 1)]"

definition bind_dist :: "'a dist \<Rightarrow> ('a \<Rightarrow> 'b dist) \<Rightarrow> 'b dist" where
  "bind_dist d f = concat (map (\<lambda>(x, p). map (\<lambda>(y, q). (y, p * q)) (f x)) d)"

text \<open>The results a computation can return, and the probability of an event.\<close>

definition outcomes :: "'a dist \<Rightarrow> 'a set" where
  "outcomes d = fst ` set d"

definition prob :: "'a dist \<Rightarrow> ('a \<Rightarrow> bool) \<Rightarrow> rat" where
  "prob d E = sum_list (map (\<lambda>(x, p). if E x then p else 0) d)"

text \<open>
  Modelled from the spec: \<^verbatim>\<open>random2\<close> is declared in \<^verbatim>\<open>random.h\<close> and defined elsewhere.
  The spec: "\<^verbatim>\<open>random2(max)\<close>: uniform integer in [0, max); \<^verbatim>\<open>max<=0\<close> returns 0."
\<close>

definition random2 :: "int \<Rightarrow> int dist" where
  "random2 m = (if m \<le> 0 then return_dist 0
                else map (\<lambda>r. (r, 1 / of_int m)) [0..m - 1])"

text \<open>
  Modelled from the spec: \<^verbatim>\<open>x_chance_in_y(int, int)\<close> is declared in \<^verbatim>\<open>random.h\<close> and
  defined elsewhere. The spec: "returns true with probability \<^verbatim>\<open>x/y\<close> when \<^verbatim>\<open>y>0\<close>; always
  false when \<^verbatim>\<open>x<=0\<close>; always true when \<^verbatim>\<open>x>=y\<close>."
\<close>

definition x_chance_in_y :: "int \<Rightarrow> int \<Rightarrow> bool dist" where
  "x_chance_in_y x y =
     (if x \<le> 0 then return_dist False
      else if x \<ge> y then return_dist True
      else [(True, of_int x / of_int y), (False, 1 - of_int x / of_int y)])"

section \<open>Weighted choice from a collection of (item, weight) pairs\<close>

text \<open>
  \<^verbatim>\<open>random_choose_weighted(V &choices)\<close>. The collection is the list of its entries in
  iteration order; the returned pointer \<^verbatim>\<open>&entry.first\<close> is the position of the entry,
  and \<^verbatim>\<open>nullptr\<close> is \<open>None\<close>.
\<close>

fun total_weight :: "int \<Rightarrow> ('k \<times> int) list \<Rightarrow> int" where
  "total_weight tot [] = tot"
| "total_weight tot (entry # es) = total_weight (tot + snd entry) es"

fun scan_weighted :: "int \<Rightarrow> int \<Rightarrow> nat \<Rightarrow> ('k \<times> int) list \<Rightarrow> nat option" where
  "scan_weighted r acc i [] = None"
| "scan_weighted r acc i (entry # es) =
     (let acc' = acc + snd entry
      in if acc' > r then Some i else scan_weighted r acc' (Suc i) es)"

definition random_choose_weighted :: "('k \<times> int) list \<Rightarrow> nat option dist" where
  "random_choose_weighted choices =
     (let tot = total_weight 0 choices
      in bind_dist (random2 tot) (\<lambda>r. return_dist (scan_weighted r 0 0 choices)))"

text \<open>
  The claim's description of the same function, in its own words: the sum of all weights,
  a uniform integer below it, and the first entry at which the running sum exceeds the
  draw.
\<close>

definition uniform_below :: "int \<Rightarrow> int dist" where
  "uniform_below n = map (\<lambda>r. (r, 1 / of_int n)) [0..n - 1]"

definition first_exceeding :: "int \<Rightarrow> int list \<Rightarrow> nat option" where
  "first_exceeding r ws = List.find (\<lambda>i. r < sum_list (take (Suc i) ws)) [0..<length ws]"

section \<open>Weighted choice from a fixed vector of weights\<close>

text \<open>
  \<^verbatim>\<open>random_choose_weighted(const FixedVector<T, SIZE>& choices)\<close>. The second loop runs
  over the entries from index \<open>i\<close> on; it returns an index or \<open>-1\<close>.
\<close>

fun total_positive :: "int \<Rightarrow> int list \<Rightarrow> int" where
  "total_positive tot [] = tot"
| "total_positive tot (weight # ws) =
     total_positive (if weight > 0 then tot + weight else tot) ws"

fun scan_fixed :: "int \<Rightarrow> int \<Rightarrow> int \<Rightarrow> int list \<Rightarrow> int" where
  "scan_fixed r acc i [] = - 1"
| "scan_fixed r acc i (c # cs) =
     (if c \<le> 0 then scan_fixed r acc (i + 1) cs
      else (let acc' = acc + c
            in if acc' > r then i else scan_fixed r acc' (i + 1) cs))"

definition random_choose_weighted_fixed :: "int list \<Rightarrow> int dist" where
  "random_choose_weighted_fixed choices =
     (let tot = total_positive 0 choices
      in bind_dist (random2 tot) (\<lambda>r. return_dist (scan_fixed r 0 0 choices)))"

section \<open>Weighted choice among arguments\<close>

text \<open>
  \<^verbatim>\<open>random_choose_weighted(int cweight, T curr, int nweight, T next, Args... args)\<close> and
  its base case \<^verbatim>\<open>random_choose_weighted(int cweight, T curr)\<close>. The remaining arguments
  are the list of (weight, item) pairs.
\<close>

fun random_choose_weighted_args :: "int \<Rightarrow> 'a \<Rightarrow> (int \<times> 'a) list \<Rightarrow> 'a dist" where
  "random_choose_weighted_args cweight cur [] = return_dist cur"
| "random_choose_weighted_args cweight cur ((nweight, nxt) # args) =
     bind_dist (random2 (cweight + nweight))
       (\<lambda>r. random_choose_weighted_args (cweight + nweight)
               (if r < nweight then nxt else cur) args)"

section \<open>Weighted choice from an iterator with a weight function\<close>

text \<open>
  \<^verbatim>\<open>random_choose_weighted(Iterator xs, WeightFn weight)\<close>. An iterator is its position
  \<open>xs\<close> together with the items from that position to the end of the range; it converts
  to \<^verbatim>\<open>false\<close> when no item is left. The range is finite: the loop \<^verbatim>\<open>while (xs)\<close> ends
  only at a past-the-end iterator. The weights are \<^verbatim>\<open>int\<close>s, so the call of
  \<^verbatim>\<open>x_chance_in_y\<close> is the one on \<^verbatim>\<open>int\<close>.
\<close>

fun choose_weighted_loop ::
  "('a \<Rightarrow> int) \<Rightarrow> 'a list \<Rightarrow> nat \<Rightarrow> nat \<Rightarrow> bool \<Rightarrow> int \<Rightarrow> nat dist" where
  "choose_weighted_loop weight [] xs result found totalweight =
     return_dist (if found then result else xs)"
| "choose_weighted_loop weight (item # rest) xs result found totalweight =
     (let cweight = weight item;
          totalweight' = totalweight + cweight
      in bind_dist (x_chance_in_y cweight totalweight')
           (\<lambda>hit. if hit then choose_weighted_loop weight rest (Suc xs) xs True totalweight'
                   else choose_weighted_loop weight rest (Suc xs) result found totalweight'))"

definition random_choose_weighted_iter :: "('a \<Rightarrow> int) \<Rightarrow> 'a list \<Rightarrow> nat dist" where
  "random_choose_weighted_iter weight items = choose_weighted_loop weight items 0 0 False 0"

section \<open>Shuffling\<close>

text \<open>
  \<^verbatim>\<open>shuffle_array(I begin, I end)\<close>: the range is the list of its elements, and
  \<^verbatim>\<open>iter_swap(begin + i, begin + n)\<close> exchanges the elements at \<open>i\<close> and \<open>n\<close>. The size
  \<open>n\<close> is passed to \<^verbatim>\<open>random2\<close> as an \<^verbatim>\<open>int\<close>: the length of the range is taken to fit.
\<close>

definition iter_swap :: "'a list \<Rightarrow> nat \<Rightarrow> nat \<Rightarrow> 'a list" where
  "iter_swap xs i j = xs[i := xs ! j, j := xs ! i]"

fun shuffle_loop :: "nat \<Rightarrow> 'a list \<Rightarrow> 'a list dist" where
  "shuffle_loop n xs =
     (if n > 1
      then bind_dist (random2 (int n))
             (\<lambda>i. shuffle_loop (n - 1) (iter_swap xs (nat i) (n - 1)))
      else return_dist xs)"

declare shuffle_loop.simps [simp del]

definition shuffle_array :: "'a list \<Rightarrow> 'a list dist" where
  "shuffle_array xs = shuffle_loop (length xs) xs"

text \<open>
  The Fisher-Yates shuffle in the words of the spec: for each \<open>n\<close> of a list of sizes,
  exchange the element at a uniformly chosen index below \<open>n\<close> with the one at \<open>n - 1\<close>;
  the sizes run from the length down to 2.
\<close>

fun fisher_yates_steps :: "nat list \<Rightarrow> 'a list \<Rightarrow> 'a list dist" where
  "fisher_yates_steps [] xs = return_dist xs"
| "fisher_yates_steps (n # ns) xs =
     bind_dist (uniform_below (int n))
       (\<lambda>i. fisher_yates_steps ns (iter_swap xs (nat i) (n - 1)))"

definition fisher_yates :: "'a list \<Rightarrow> 'a list dist" where
  "fisher_yates xs = fisher_yates_steps (rev [2..<Suc (length xs)]) xs"

section \<open>Weighted choice of a position, asserted to succeed\<close>

text \<open>
  \<^verbatim>\<open>choose_random_weighted(Iterator beg, const Iterator end)\<close>. The range is the list of
  the weights \<^verbatim>\<open>*beg\<close>. Modelled from the spec: the macro \<^verbatim>\<open>ASSERT\<close> is not defined in
  \<^verbatim>\<open>random.h\<close>; a failed assertion "fails loudly", which is the error \<open>Assertion_Failed\<close>.
\<close>

datatype error = Assertion_Failed

fun choose_random_weighted_loop :: "int list \<Rightarrow> int \<Rightarrow> int \<Rightarrow> int \<Rightarrow> int dist" where
  "choose_random_weighted_loop [] cnt totalweight result = return_dist result"
| "choose_random_weighted_loop (w # ws) cnt totalweight result =
     (let totalweight' = totalweight + w
      in bind_dist (random2 totalweight')
           (\<lambda>r. choose_random_weighted_loop ws (cnt + 1) totalweight'
                   (if r < w then cnt else result)))"

definition choose_random_weighted :: "int list \<Rightarrow> (error + int) dist" where
  "choose_random_weighted ws =
     bind_dist (choose_random_weighted_loop ws 0 0 (- 1))
       (\<lambda>result. return_dist (if result \<ge> 0 then Inr result else Inl Assertion_Failed))"

section \<open>The generic overload of x_chance_in_y\<close>

text \<open>
  \<^verbatim>\<open>template <typename T, typename U> bool x_chance_in_y(T x, U y)\<close>. A numeric type is
  what the template uses of it: the trait \<^verbatim>\<open>is_floating_point<T>::value\<close> and the
  conversions \<^verbatim>\<open>double(x)\<close> and \<^verbatim>\<open>int(x)\<close> of its values; the template reads nothing
  else of \<open>T\<close> and \<open>U\<close>. The type \<open>'d\<close> stands for
  \<^verbatim>\<open>double\<close>. The overload on \<^verbatim>\<open>double\<close> is declared in \<^verbatim>\<open>random.h\<close> and defined
  elsewhere: it is the parameter \<open>x_chance_in_y_double\<close>.
\<close>

record ('v, 'd) numeric =
  is_floating_point :: bool
  to_double :: "'v \<Rightarrow> 'd"
  to_int :: "'v \<Rightarrow> int"

definition x_chance_in_y_T ::
  "('d \<Rightarrow> 'd \<Rightarrow> bool dist) \<Rightarrow> ('x, 'd) numeric \<Rightarrow> ('y, 'd) numeric \<Rightarrow> 'x \<Rightarrow> 'y \<Rightarrow> bool dist" where
  "x_chance_in_y_T x_chance_in_y_double T U x y =
     (if is_floating_point T \<or> is_floating_point U
      then x_chance_in_y_double (to_double T x) (to_double U y)
      else x_chance_in_y (to_int T x) (to_int U y))"

text \<open>
  The spec's words for the same choice: the real-valued implementation whenever either
  argument is non-integral, else the integer implementation. A numeric type is integral
  or floating-point.
\<close>

datatype overload = Integer_Implementation | Real_Implementation

definition is_integral :: "('v, 'd) numeric \<Rightarrow> bool" where
  "is_integral T = (\<not> is_floating_point T)"

definition dispatch :: "('x, 'd) numeric \<Rightarrow> ('y, 'd) numeric \<Rightarrow> overload" where
  "dispatch T U =
     (if \<not> is_integral T \<or> \<not> is_integral U then Real_Implementation
      else Integer_Implementation)"

section \<open>The deferred random tree\<close>

text \<open>
  Modelled from the spec: the member functions of \<^verbatim>\<open>defer_rand\<close> are declared in
  \<^verbatim>\<open>random.h\<close> and defined elsewhere. The spec: each node owns "a lazily-generated
  fractional value in [0,1) (generated exactly once, on first access, then immutable for
  the node's lifetime), and a mapping from integer keys to exclusively-owned child nodes";
  "\<^verbatim>\<open>chanceTest(x, y)\<close> -- true iff the node's stored fraction is less than \<^verbatim>\<open>x/y\<close>";
  "\<^verbatim>\<open>random2(maxExclusive)\<close> -- floor(fraction * maxExclusive)". The comment on the
  class in \<^verbatim>\<open>random.h\<close> says the same: "The first time any node in the tree has a method
  called on it, a random float between 0 and 1 (the fraction) is generated and stored,
  and this float is combined with the method's parameters to arrive at the result."

  The fraction is a rational number. The argument \<open>fresh\<close> of a query is the fraction
  that the generator delivers should the node draw now; a query returns its answer and
  the node as it is afterwards.
\<close>

datatype defer_rand =
  Defer_Rand (fraction: "rat option") (children: "(int \<times> defer_rand) list")

definition valid_fraction :: "rat \<Rightarrow> bool" where
  "valid_fraction f = (0 \<le> f \<and> f < 1)"

definition valid_node :: "defer_rand \<Rightarrow> bool" where
  "valid_node node = (case fraction node of None \<Rightarrow> True | Some f \<Rightarrow> valid_fraction f)"

definition resolve :: "rat \<Rightarrow> defer_rand \<Rightarrow> rat \<times> defer_rand" where
  "resolve fresh node =
     (case fraction node of
        Some f \<Rightarrow> (f, node)
      | None \<Rightarrow> (fresh, Defer_Rand (Some fresh) (children node)))"

definition defer_x_chance_in_y :: "int \<Rightarrow> int \<Rightarrow> rat \<Rightarrow> defer_rand \<Rightarrow> bool \<times> defer_rand" where
  "defer_x_chance_in_y x y fresh node =
     (case resolve fresh node of (f, node') \<Rightarrow> (f < of_int x / of_int y, node'))"

definition defer_random2 :: "int \<Rightarrow> rat \<Rightarrow> defer_rand \<Rightarrow> int \<times> defer_rand" where
  "defer_random2 maxp1 fresh node =
     (case resolve fresh node of (f, node') \<Rightarrow> (\<lfloor>f * of_int maxp1\<rfloor>, node'))"

section \<open>The sums in a 32-bit int\<close>

text \<open>
  The loops above add weights in \<open>int\<close>. The program adds them in a C++ \<^verbatim>\<open>int\<close>: the
  compiled code keeps the low 32 bits of a sum, read in two's complement (\<open>int32\<close>), so a
  total above \<open>INT_MAX\<close> comes out negative. The functions of this section are the same
  loops with every sum taken in \<^verbatim>\<open>int\<close>. They embed
  \<^verbatim>\<open>random_choose_weighted(V &choices)\<close>,
  \<^verbatim>\<open>random_choose_weighted(int cweight, T curr, int nweight, T next, Args... args)\<close> and
  \<^verbatim>\<open>random_choose_weighted(Iterator xs, WeightFn weight)\<close> for every input; for
  non-negative weights whose total is at most \<open>INT_MAX\<close> they are the functions above.
\<close>

definition INT_MAX :: int where
  "INT_MAX = 2147483647"

definition int32 :: "int \<Rightarrow> int" where
  "int32 x = (x + 2147483648) mod 4294967296 - 2147483648"

fun total_weight_int32 :: "int \<Rightarrow> ('k \<times> int) list \<Rightarrow> int" where
  "total_weight_int32 tot [] = tot"
| "total_weight_int32 tot (entry # es) = total_weight_int32 (int32 (tot + snd entry)) es"

fun scan_weighted_int32 :: "int \<Rightarrow> int \<Rightarrow> nat \<Rightarrow> ('k \<times> int) list \<Rightarrow> nat option" where
  "scan_weighted_int32 r acc i [] = None"
| "scan_weighted_int32 r acc i (entry # es) =
     (let acc' = int32 (acc + snd entry)
      in if acc' > r then Some i else scan_weighted_int32 r acc' (Suc i) es)"

definition random_choose_weighted_int32 :: "('k \<times> int) list \<Rightarrow> nat option dist" where
  "random_choose_weighted_int32 choices =
     (let tot = total_weight_int32 0 choices
      in bind_dist (random2 tot) (\<lambda>r. return_dist (scan_weighted_int32 r 0 0 choices)))"

fun random_choose_weighted_args_int32 :: "int \<Rightarrow> 'a \<Rightarrow> (int \<times> 'a) list \<Rightarrow> 'a dist" where
  "random_choose_weighted_args_int32 cweight cur [] = return_dist cur"
| "random_choose_weighted_args_int32 cweight cur ((nweight, nxt) # args) =
     bind_dist (random2 (int32 (cweight + nweight)))
       (\<lambda>r. random_choose_weighted_args_int32 (int32 (cweight + nweight))
               (if r < nweight then nxt else cur) args)"

fun choose_weighted_loop_int32 ::
  "('a \<Rightarrow> int) \<Rightarrow> 'a list \<Rightarrow> nat \<Rightarrow> nat \<Rightarrow> bool \<Rightarrow> int \<Rightarrow> nat dist" where
  "choose_weighted_loop_int32 weight [] xs result found totalweight =
     return_dist (if found then result else xs)"
| "choose_weighted_loop_int32 weight (item # rest) xs result found totalweight =
     (let cweight = weight item;
          totalweight' = int32 (totalweight + cweight)
      in bind_dist (x_chance_in_y cweight totalweight')
           (\<lambda>hit. if hit
                   then choose_weighted_loop_int32 weight rest (Suc xs) xs True totalweight'
                   else choose_weighted_loop_int32 weight rest (Suc xs) result found
                          totalweight'))"

definition random_choose_weighted_iter_int32 :: "('a \<Rightarrow> int) \<Rightarrow> 'a list \<Rightarrow> nat dist" where
  "random_choose_weighted_iter_int32 weight items =
     choose_weighted_loop_int32 weight items 0 0 False 0"

section \<open>The overload of x_chance_in_y on double\<close>

text \<open>
  Modelled from the spec: \<^verbatim>\<open>x_chance_in_y(double, double)\<close> is declared in \<^verbatim>\<open>random.h\<close>
  and defined elsewhere. The spec, of the "integer and real overloads": "returns true
  with probability \<^verbatim>\<open>x/y\<close> when \<^verbatim>\<open>y>0\<close>; always false when \<^verbatim>\<open>x<=0\<close>; always true when
  \<^verbatim>\<open>x>=y\<close>." A finite \<^verbatim>\<open>double\<close> is the rational number it stands for.
\<close>

definition x_chance_in_y_real :: "rat \<Rightarrow> rat \<Rightarrow> bool dist" where
  "x_chance_in_y_real x y =
     (if x \<le> 0 then return_dist False
      else if x \<ge> y then return_dist True
      else [(True, x / y), (False, 1 - x / y)])"

section \<open>Basic facts about outcomes\<close>

lemma outcomes_return [simp]: "outcomes (return_dist x) = {x}"
  by (simp add: outcomes_def return_dist_def)

lemma outcomes_bind [simp]: "outcomes (bind_dist d f) = (\<Union>x\<in>outcomes d. outcomes (f x))"
  by (force simp: outcomes_def bind_dist_def)

lemma outcomes_random2:
  "outcomes (random2 m) = (if m \<le> 0 then {0} else {0..<m})"
  by (auto simp: random2_def outcomes_def return_dist_def image_image)

lemma outcomes_random2_nonneg: "r \<in> outcomes (random2 m) \<Longrightarrow> 0 \<le> r"
  by (auto simp: outcomes_random2 split: if_splits)

lemma outcomes_x_chance_in_y_zero: "x \<le> 0 \<Longrightarrow> outcomes (x_chance_in_y x y) = {False}"
  by (simp add: x_chance_in_y_def)

lemma bind_return_left: "bind_dist (return_dist x) f = f x"
  by (simp add: bind_dist_def return_dist_def)

section \<open>The scan of the collection\<close>

lemma total_weight_sum: "total_weight tot es = tot + sum_list (map snd es)"
  by (induction es arbitrary: tot) auto

lemma scan_weighted_Some:
  "acc \<le> r \<Longrightarrow> scan_weighted r acc i es = Some j \<Longrightarrow>
     i \<le> j \<and> j - i < length es \<and> 0 < snd (es ! (j - i))"
proof (induction es arbitrary: acc i)
  case Nil
  then show ?case by simp
next
  case (Cons e es)
  show ?case
  proof (cases "acc + snd e > r")
    case True
    with Cons.prems show ?thesis by simp
  next
    case False
    with Cons.prems have "scan_weighted r (acc + snd e) (Suc i) es = Some j"
      by simp
    with False Cons.IH [of "acc + snd e" "Suc i"]
    have "Suc i \<le> j \<and> j - Suc i < length es \<and> 0 < snd (es ! (j - Suc i))" by simp
    then show ?thesis by (auto simp: nth_Cons' Suc_diff_le)
  qed
qed

lemma scan_weighted_None:
  "scan_weighted r acc i es = None \<Longrightarrow> acc \<le> r \<Longrightarrow> acc + sum_list (map snd es) \<le> r"
proof (induction es arbitrary: acc i)
  case Nil
  then show ?case by simp
next
  case (Cons e es)
  from Cons.prems have le: "acc + snd e \<le> r"
    and rest: "scan_weighted r (acc + snd e) (Suc i) es = None"
    by (auto simp: Let_def split: if_splits)
  from Cons.IH [OF rest le] show ?case by (simp add: add.assoc)
qed

lemma find_map_comp: "List.find P (map f xs) = map_option f (List.find (P \<circ> f) xs)"
  by (induction xs) auto

lemma scan_weighted_find:
  "scan_weighted r acc i es =
     map_option (\<lambda>j. i + j)
       (List.find (\<lambda>j. r < acc + sum_list (take (Suc j) (map snd es))) [0..<length es])"
proof (induction es arbitrary: acc i)
  case Nil
  then show ?case by simp
next
  case (Cons e es)
  have upt: "[0..<length (e # es)] = 0 # map Suc [0..<length es]"
    by (simp add: upt_conv_Cons map_Suc_upt del: upt_Suc)
  show ?case
    unfolding upt
    by (simp add: Cons.IH find_map_comp o_def option.map_comp add.assoc Let_def del: upt_Suc)
qed

lemma scan_weighted_first_exceeding:
  "scan_weighted r 0 0 es = first_exceeding r (map snd es)"
  by (simp add: scan_weighted_find first_exceeding_def option.map_ident)

lemma scan_all_zero:
  "\<forall>e\<in>set es. snd e = 0 \<Longrightarrow> acc \<le> r \<Longrightarrow> scan_weighted r acc i es = None"
  by (induction es arbitrary: i) auto

lemma sum_list_all_zero: "\<forall>e\<in>set es. snd e = (0::int) \<Longrightarrow> sum_list (map snd es) = 0"
  by (induction es) auto

lemma sum_list_nonneg_zero:
  "\<forall>w\<in>set ws. (0::int) \<le> w \<Longrightarrow> sum_list ws = 0 \<Longrightarrow> \<forall>w\<in>set ws. w = 0"
proof (induction ws)
  case Nil
  then show ?case by simp
next
  case (Cons w ws)
  then have "0 \<le> w" and "0 \<le> sum_list ws" by (auto intro: sum_list_nonneg)
  with Cons.prems(2) have "w = 0" and "sum_list ws = 0" by auto
  with Cons show ?case by auto
qed

section \<open>The scan of the fixed vector\<close>

lemma total_positive_sum:
  "total_positive tot ws = tot + sum_list (filter (\<lambda>w. 0 < w) ws)"
  by (induction ws arbitrary: tot) auto

lemma nth_Cons_shift: "i + 1 \<le> k \<Longrightarrow> (c # cs) ! nat (k - i) = cs ! nat (k - (i + 1))"
proof -
  assume "i + 1 \<le> k"
  then have "nat (k - i) = Suc (nat (k - (i + 1)))" by linarith
  then show ?thesis by simp
qed

lemma scan_fixed_range:
  "acc \<le> r \<Longrightarrow> 0 \<le> i \<Longrightarrow> scan_fixed r acc i cs = k \<Longrightarrow>
     (k = - 1 \<and> acc + sum_list (filter (\<lambda>w. 0 < w) cs) \<le> r)
   \<or> (i \<le> k \<and> k < i + int (length cs) \<and> 0 < cs ! nat (k - i))"
proof (induction cs arbitrary: acc i)
  case Nil
  then show ?case by simp
next
  case (Cons c cs)
  have step: ?case
    if rest: "(k = - 1 \<and> acc' + sum_list (filter (\<lambda>w. 0 < w) cs) \<le> r)
       \<or> (i + 1 \<le> k \<and> k < i + 1 + int (length cs) \<and> 0 < cs ! nat (k - (i + 1)))"
      and acc': "acc' = (if c \<le> 0 then acc else acc + c)" for acc'
    using rest
  proof (elim disjE conjE)
    assume "k = - 1" "acc' + sum_list (filter (\<lambda>w. 0 < w) cs) \<le> r"
    with acc' show ?thesis by (cases "c \<le> 0") (auto simp: add.assoc)
  next
    assume idx: "i + 1 \<le> k" "k < i + 1 + int (length cs)" "0 < cs ! nat (k - (i + 1))"
    have "0 < (c # cs) ! nat (k - i)"
      using idx(3) by (simp only: nth_Cons_shift [OF idx(1)])
    with idx show ?thesis by simp
  qed
  show ?case
  proof (cases "c \<le> 0")
    case True
    with Cons.prems have "scan_fixed r acc (i + 1) cs = k" by simp
    from Cons.IH [OF Cons.prems(1) _ this] Cons.prems(2) True
    show ?thesis by (intro step [of acc]) auto
  next
    case pos: False
    show ?thesis
    proof (cases "acc + c > r")
      case True
      with pos Cons.prems show ?thesis by simp
    next
      case False
      with pos Cons.prems have "scan_fixed r (acc + c) (i + 1) cs = k" by simp
      from Cons.IH [OF _ _ this] False Cons.prems(2) pos
      show ?thesis by (intro step [of "acc + c"]) auto
    qed
  qed
qed

lemma filter_positive_empty: "\<forall>w\<in>set ws. w \<le> (0::int) \<Longrightarrow> filter (\<lambda>w. 0 < w) ws = []"
  by (induction ws) auto

lemma sum_positive_pos:
  "\<exists>w\<in>set ws. (0::int) < w \<Longrightarrow> 0 < sum_list (filter (\<lambda>w. 0 < w) ws)"
proof (induction ws)
  case Nil
  then show ?case by simp
next
  case (Cons w ws)
  have "0 \<le> sum_list (filter (\<lambda>w. 0 < w) ws)"
    by (rule sum_list_nonneg) auto
  with Cons show ?case by auto
qed

section \<open>The loop of choose_random_weighted\<close>

lemma choose_random_weighted_loop_range:
  "k \<in> outcomes (choose_random_weighted_loop ws cnt tw result) \<Longrightarrow>
     k = result \<or> (cnt \<le> k \<and> k < cnt + int (length ws))"
proof (induction ws arbitrary: cnt tw result)
  case Nil
  then show ?case by simp
next
  case (Cons w ws)
  from Cons.prems obtain r where
    "k \<in> outcomes (choose_random_weighted_loop ws (cnt + 1) (tw + w)
                     (if r < w then cnt else result))"
    by (auto simp: Let_def)
  from Cons.IH [OF this] show ?case by (auto split: if_splits)
qed

lemma choose_random_weighted_loop_found:
  "tw \<le> 0 \<Longrightarrow> \<exists>w\<in>set ws. 0 < w \<Longrightarrow>
   k \<in> outcomes (choose_random_weighted_loop ws cnt tw result) \<Longrightarrow>
     cnt \<le> k \<and> k < cnt + int (length ws)"
proof (induction ws arbitrary: cnt tw result)
  case Nil
  then show ?case by simp
next
  case (Cons w ws)
  from Cons.prems(3) obtain r where r: "r \<in> outcomes (random2 (tw + w))"
    and k: "k \<in> outcomes (choose_random_weighted_loop ws (cnt + 1) (tw + w)
                     (if r < w then cnt else result))"
    by (auto simp: Let_def)
  show ?case
  proof (cases "0 < w")
    case True
    with r Cons.prems(1) have "r < w"
      by (auto simp: outcomes_random2 split: if_splits)
    with k choose_random_weighted_loop_range [of k ws "cnt + 1" "tw + w" cnt]
    show ?thesis by auto
  next
    case False
    with Cons.prems have "tw + w \<le> 0" and "\<exists>w\<in>set ws. 0 < w" by auto
    from Cons.IH [OF this k] show ?thesis by auto
  qed
qed

lemma choose_random_weighted_loop_all_zero:
  "\<forall>w\<in>set ws. w = 0 \<Longrightarrow>
     outcomes (choose_random_weighted_loop ws cnt 0 result) = {result}"
  by (induction ws arbitrary: cnt) (auto simp: outcomes_random2)

section \<open>The shuffle\<close>

lemma mset_iter_swap:
  "i < length xs \<Longrightarrow> j < length xs \<Longrightarrow> mset (iter_swap xs i j) = mset xs"
  by (simp add: iter_swap_def mset_swap)

lemma length_iter_swap [simp]: "length (iter_swap xs i j) = length xs"
  by (simp add: iter_swap_def)

lemma shuffle_loop_mset:
  "n \<le> length xs \<Longrightarrow> ys \<in> outcomes (shuffle_loop n xs) \<Longrightarrow> mset ys = mset xs"
proof (induction n xs rule: shuffle_loop.induct)
  case (1 n xs)
  show ?case
  proof (cases "n > 1")
    case True
    with "1.prems" obtain i where i: "i \<in> outcomes (random2 (int n))"
      and ys: "ys \<in> outcomes (shuffle_loop (n - 1) (iter_swap xs (nat i) (n - 1)))"
      by (subst (asm) shuffle_loop.simps) auto
    from i True have "nat i < n" by (auto simp: outcomes_random2)
    with "1.prems"(1) True have "mset (iter_swap xs (nat i) (n - 1)) = mset xs"
      by (intro mset_iter_swap) auto
    moreover from "1.IH" [OF True _ ys] "1.prems"(1)
    have "mset ys = mset (iter_swap xs (nat i) (n - 1))" by simp
    ultimately show ?thesis by simp
  next
    case False
    with "1.prems" show ?thesis by (subst (asm) shuffle_loop.simps) simp
  qed
qed

lemma rev_upt_2: "1 < n \<Longrightarrow> rev [2..<Suc n] = n # rev [2..<n]"
  by simp

lemma shuffle_loop_fisher_yates:
  "shuffle_loop n xs = fisher_yates_steps (rev [2..<Suc n]) xs"
proof (induction n xs rule: shuffle_loop.induct)
  case (1 n xs)
  show ?case
  proof (cases "n > 1")
    case True
    then have pred: "Suc (n - 1) = n" by simp
    have "shuffle_loop n xs =
        bind_dist (uniform_below (int n))
          (\<lambda>i. shuffle_loop (n - 1) (iter_swap xs (nat i) (n - 1)))"
      using True by (subst shuffle_loop.simps) (simp add: random2_def uniform_below_def)
    also have "\<dots> = bind_dist (uniform_below (int n))
          (\<lambda>i. fisher_yates_steps (rev [2..<n]) (iter_swap xs (nat i) (n - 1)))"
      by (simp only: "1.IH" [OF True] pred)
    also have "\<dots> = fisher_yates_steps (rev [2..<Suc n]) xs"
      using True by (simp only: rev_upt_2 fisher_yates_steps.simps)
    finally show ?thesis .
  next
    case False
    then have "[2..<Suc n] = []" by simp
    with False show ?thesis by (subst shuffle_loop.simps) simp
  qed
qed

section \<open>Inputs of total weight zero\<close>

lemma choose_weighted_loop_all_zero:
  "\<forall>item\<in>set items. weight item = 0 \<Longrightarrow>
     outcomes (choose_weighted_loop weight items xs result False 0) = {xs + length items}"
  by (induction items arbitrary: xs) (auto simp: outcomes_x_chance_in_y_zero)

lemma random_choose_weighted_args_all_zero:
  "\<forall>a\<in>set args. fst a = 0 \<Longrightarrow>
     outcomes (random_choose_weighted_args 0 cur args) = {cur}"
  by (induction args) (auto simp: outcomes_random2)

lemma scan_fixed_all_skipped: "\<forall>w\<in>set cs. w \<le> 0 \<Longrightarrow> scan_fixed r acc i cs = - 1"
  by (induction cs arbitrary: i) auto

section \<open>Probabilities\<close>

lemma prob_return: "prob (return_dist x) E = of_bool (E x)"
  by (simp add: prob_def return_dist_def)

lemma prob_scale:
  "prob (map (\<lambda>(y, q). (y, p * q)) d) E = p * prob d E"
  by (induction d) (auto simp: prob_def algebra_simps)

lemma prob_append: "prob (d @ d') E = prob d E + prob d' E"
  by (simp add: prob_def)

lemma prob_bind:
  "prob (bind_dist d f) E = sum_list (map (\<lambda>(x, p). p * prob (f x) E) d)"
proof (induction d)
  case Nil
  then show ?case by (simp add: prob_def bind_dist_def)
next
  case (Cons a d)
  obtain x p where a: "a = (x, p)" by (cases a)
  have "bind_dist (a # d) f = map (\<lambda>(y, q). (y, p * q)) (f x) @ bind_dist d f"
    by (simp add: bind_dist_def a)
  with Cons.IH show ?case by (simp add: prob_append prob_scale a)
qed

lemma prob_random2:
  assumes "0 < m"
  shows "prob (bind_dist (random2 m) f) E
         = sum_list (map (\<lambda>r. prob (f r) E) [0..m - 1]) / of_int m"
proof -
  have "prob (bind_dist (random2 m) f) E
      = sum_list (map (\<lambda>r. (1 / of_int m) * prob (f r) E) [0..m - 1])"
    using assms by (simp add: prob_bind random2_def o_def)
  also have "\<dots> = (1 / of_int m) * sum_list (map (\<lambda>r. prob (f r) E) [0..m - 1])"
    by (rule sum_list_const_mult)
  finally show ?thesis by simp
qed

lemma bind_random2_zero: "m \<le> 0 \<Longrightarrow> bind_dist (random2 m) f = f 0"
  by (simp add: random2_def bind_return_left)

lemma sum_upto_const:
  fixes f :: "int \<Rightarrow> rat"
  assumes "\<And>r. i \<le> r \<Longrightarrow> r \<le> j \<Longrightarrow> f r = c" and "i \<le> j + 1"
  shows "sum_list (map f [i..j]) = of_int (j - i + 1) * c"
proof -
  have eq: "map f [i..j] = map (\<lambda>_. c) [i..j]"
    using assms(1) by (intro map_cong) auto
  have "sum_list (map f [i..j]) = sum_list (map (\<lambda>_. c) [i..j])"
    by (simp only: eq)
  also have "\<dots> = of_nat (length [i..j]) * c"
    by (rule sum_list_triv)
  also have "of_nat (length [i..j]) = (of_int (j - i + 1) :: rat)"
    using assms(2) by simp
  finally show ?thesis .
qed

lemma sum_upto_split:
  fixes f :: "int \<Rightarrow> rat"
  assumes "i \<le> k" and "k \<le> j + 1"
  shows "sum_list (map f [i..j]) = sum_list (map f [i..k - 1]) + sum_list (map f [k..j])"
proof (cases "i = k")
  case True
  then show ?thesis by simp
next
  case False
  with assms have "[i..j] = [i..k - 1] @ [k - 1 + 1..j]"
    by (intro upto_split2) auto
  then show ?thesis by simp
qed

lemma sum_upto_threshold:
  fixes g :: "bool \<Rightarrow> rat"
  assumes "0 \<le> w" and "w \<le> m"
  shows "sum_list (map (\<lambda>r. g (r < w)) [0..m - 1])
         = of_int w * g True + of_int (m - w) * g False"
proof -
  have "sum_list (map (\<lambda>r. g (r < w)) [0..m - 1])
      = sum_list (map (\<lambda>r. g (r < w)) [0..w - 1]) + sum_list (map (\<lambda>r. g (r < w)) [w..m - 1])"
    using assms by (intro sum_upto_split) auto
  moreover have "sum_list (map (\<lambda>r. g (r < w)) [0..w - 1]) = of_int (w - 1 - 0 + 1) * g True"
    using assms by (intro sum_upto_const) auto
  moreover have "sum_list (map (\<lambda>r. g (r < w)) [w..m - 1]) = of_int (m - 1 - w + 1) * g False"
    using assms by (intro sum_upto_const) auto
  ultimately show ?thesis by simp
qed

lemma reservoir_step:
  fixes c w a b S D :: rat
  assumes "c + w \<noteq> 0" and "D \<noteq> 0"
  shows "(w * (((c + w) * a + S) / D) + c * (((c + w) * b + S) / D)) / (c + w)
         = (c * b + w * a + S) / D"
proof -
  have "w * (((c + w) * a + S) / D) + c * (((c + w) * b + S) / D)
      = (c + w) * ((c * b + w * a + S) / D)"
    using assms(2) by (simp add: field_simps)
  with assms(1) show ?thesis by simp
qed

lemma reservoir_step_chance:
  fixes c w a b S D :: rat
  assumes "c + w \<noteq> 0" and "D \<noteq> 0"
  shows "(w / (c + w)) * (((c + w) * a + S) / D)
           + (1 - w / (c + w)) * (((c + w) * b + S) / D)
         = (c * b + w * a + S) / D"
proof -
  have "1 - w / (c + w) = c / (c + w)"
    using assms(1) by (simp add: field_simps)
  then have "(w / (c + w)) * (((c + w) * a + S) / D)
               + (1 - w / (c + w)) * (((c + w) * b + S) / D)
     = (w * (((c + w) * a + S) / D) + c * (((c + w) * b + S) / D)) / (c + w)"
    by (simp add: add_divide_distrib)
  with reservoir_step [OF assms] show ?thesis by simp
qed

section \<open>The distribution of the choice among arguments\<close>

lemma random_choose_weighted_args_prob:
  "0 \<le> c \<Longrightarrow> \<forall>a\<in>set args. 0 \<le> fst a \<Longrightarrow> 0 < c + sum_list (map fst args) \<Longrightarrow>
   prob (random_choose_weighted_args c cur args) E
     = (of_int c * of_bool (E cur)
        + sum_list (map (\<lambda>a. of_int (fst a) * of_bool (E (snd a))) args))
       / of_int (c + sum_list (map fst args))"
proof (induction args arbitrary: c cur)
  case Nil
  then show ?case by (simp add: prob_return)
next
  case (Cons a args)
  obtain w v where a: "a = (w, v)" by (cases a)
  let ?R = "sum_list (map fst args)"
  let ?S = "sum_list (map (\<lambda>a. of_int (fst a) * of_bool (E (snd a))) args) :: rat"
  from Cons.prems a have w0: "0 \<le> w" and nonneg: "\<forall>a\<in>set args. 0 \<le> fst a"
    and pos: "0 < c + w + ?R" by auto
  have IH: "prob (random_choose_weighted_args (c + w) x args) E
      = (of_int (c + w) * of_bool (E x) + ?S) / of_int (c + w + ?R)" for x
    using Cons.IH [of "c + w" x] Cons.prems(1) w0 nonneg pos by simp
  show ?case
  proof (cases "c + w = 0")
    case True
    with Cons.prems(1) w0 have "c = 0" "w = 0" by auto
    then show ?thesis
      using IH [of cur] by (simp add: a bind_random2_zero)
  next
    case False
    with Cons.prems(1) w0 have T: "0 < c + w" by auto
    let ?g = "\<lambda>b. prob (random_choose_weighted_args (c + w) (if b then v else cur) args) E"
    have "prob (random_choose_weighted_args c cur (a # args)) E
        = sum_list (map (\<lambda>r. ?g (r < w)) [0..c + w - 1]) / of_int (c + w)"
      by (simp add: a prob_random2 [OF T])
    also have "sum_list (map (\<lambda>r. ?g (r < w)) [0..c + w - 1])
        = of_int w * ?g True + of_int (c + w - w) * ?g False"
      using w0 Cons.prems(1) by (intro sum_upto_threshold) auto
    also have "(of_int w * ?g True + of_int (c + w - w) * ?g False) / of_int (c + w)
        = (of_int c * of_bool (E cur) + of_int w * of_bool (E v) + ?S) / of_int (c + w + ?R)"
      using reservoir_step [of "of_int c" "of_int w" "of_int (c + w + ?R)"
          "of_bool (E v)" ?S "of_bool (E cur)"] T pos
      by (simp add: IH)
    finally show ?thesis by (simp add: a add.assoc)
  qed
qed

section \<open>The distribution of the choice from an iterator\<close>

lemma choose_weighted_loop_prob:
  "0 \<le> tw \<Longrightarrow> \<forall>x\<in>set items. 0 \<le> weight x \<Longrightarrow>
   0 < tw + sum_list (map weight items) \<Longrightarrow> (0 < tw \<longrightarrow> found) \<Longrightarrow>
   prob (choose_weighted_loop weight items xs result found tw) E
     = (of_int tw * of_bool (E result)
        + sum_list (map (\<lambda>(j, x). of_int (weight x) * of_bool (E j)) (enumerate xs items)))
       / of_int (tw + sum_list (map weight items))"
proof (induction items arbitrary: tw xs result found)
  case Nil
  then show ?case by (simp add: prob_return)
next
  case (Cons x items)
  let ?w = "weight x"
  let ?R = "sum_list (map weight items)"
  let ?S = "sum_list (map (\<lambda>(j, x). of_int (weight x) * of_bool (E j))
              (enumerate (Suc xs) items)) :: rat"
  from Cons.prems have w0: "0 \<le> ?w" and nonneg: "\<forall>x\<in>set items. 0 \<le> weight x"
    and pos: "0 < tw + ?w + ?R" by auto
  have IH: "prob (choose_weighted_loop weight items (Suc xs) res fnd (tw + ?w)) E
      = (of_int (tw + ?w) * of_bool (E res) + ?S) / of_int (tw + ?w + ?R)"
    if "0 < tw + ?w \<longrightarrow> fnd" for res fnd
    using Cons.IH [of "tw + ?w" fnd "Suc xs" res] Cons.prems(1) w0 nonneg pos that by simp
  consider (zero) "?w = 0" | (first) "0 < ?w" "tw = 0" | (chance) "0 < ?w" "0 < tw"
    using w0 Cons.prems(1) by linarith
  then show ?case
  proof cases
    case zero
    then have "x_chance_in_y ?w (tw + ?w) = return_dist False"
      by (simp add: x_chance_in_y_def)
    with zero IH [of found result] Cons.prems(4) show ?thesis
      by (simp add: bind_return_left)
  next
    case first
    then have "x_chance_in_y ?w (tw + ?w) = return_dist True"
      by (simp add: x_chance_in_y_def)
    with first IH [of True xs] show ?thesis
      by (simp add: bind_return_left)
  next
    case chance
    let ?p = "of_int ?w / of_int (tw + ?w) :: rat"
    from chance have "x_chance_in_y ?w (tw + ?w) = [(True, ?p), (False, 1 - ?p)]"
      by (simp add: x_chance_in_y_def)
    then have step: "prob (choose_weighted_loop weight (x # items) xs result found tw) E
        = ?p * prob (choose_weighted_loop weight items (Suc xs) xs True (tw + ?w)) E
          + (1 - ?p) * prob (choose_weighted_loop weight items (Suc xs) result found (tw + ?w)) E"
      by (simp add: Let_def prob_bind)
    from chance Cons.prems(4) have found by simp
    then have hit: "prob (choose_weighted_loop weight items (Suc xs) xs True (tw + ?w)) E
        = (of_int (tw + ?w) * of_bool (E xs) + ?S) / of_int (tw + ?w + ?R)"
      and miss: "prob (choose_weighted_loop weight items (Suc xs) result found (tw + ?w)) E
        = (of_int (tw + ?w) * of_bool (E result) + ?S) / of_int (tw + ?w + ?R)"
      by (intro IH; simp)+
    have "prob (choose_weighted_loop weight (x # items) xs result found tw) E
        = (of_int tw * of_bool (E result) + of_int ?w * of_bool (E xs) + ?S)
          / of_int (tw + ?w + ?R)"
      unfolding step hit miss
      using reservoir_step_chance [of "of_int tw" "of_int ?w" "of_int (tw + ?w + ?R)"
          "of_bool (E xs)" ?S "of_bool (E result)"] chance pos
      by simp
    then show ?thesis by (simp add: add.assoc)
  qed
qed

section \<open>The distribution of the choice from a collection\<close>

lemma scan_weighted_sum:
  "\<forall>e\<in>set es. 0 \<le> snd e \<Longrightarrow>
   sum_list (map (\<lambda>r. of_bool (E (scan_weighted r acc i es)))
       [acc..acc + sum_list (map snd es) - 1])
     = (sum_list (map (\<lambda>(j, e). of_int (snd e) * of_bool (E (Some j))) (enumerate i es)) :: rat)"
proof (induction es arbitrary: acc i)
  case Nil
  then show ?case by simp
next
  case (Cons e es)
  let ?w = "snd e"
  let ?R = "sum_list (map snd es)"
  let ?f = "\<lambda>r. of_bool (E (scan_weighted r acc i (e # es))) :: rat"
  let ?rest = "sum_list (map (\<lambda>(j, e). of_int (snd e) * of_bool (E (Some j)))
                 (enumerate (Suc i) es)) :: rat"
  from Cons.prems have w0: "0 \<le> ?w" and nonneg: "\<forall>e\<in>set es. 0 \<le> snd e" by auto
  then have R0: "0 \<le> ?R" by (intro sum_list_nonneg) auto
  have split: "sum_list (map ?f [acc..acc + (?w + ?R) - 1])
      = sum_list (map ?f [acc..acc + ?w - 1]) + sum_list (map ?f [acc + ?w..acc + (?w + ?R) - 1])"
    using w0 R0 by (intro sum_upto_split) auto
  have "sum_list (map ?f [acc..acc + ?w - 1])
      = of_int (acc + ?w - 1 - acc + 1) * of_bool (E (Some i))"
    using w0 by (intro sum_upto_const) auto
  then have head: "sum_list (map ?f [acc..acc + ?w - 1]) = of_int ?w * of_bool (E (Some i))"
    by simp
  have tail: "sum_list (map ?f [acc + ?w..acc + (?w + ?R) - 1]) = ?rest"
  proof -
    have "map ?f [acc + ?w..acc + (?w + ?R) - 1]
        = map (\<lambda>r. of_bool (E (scan_weighted r (acc + ?w) (Suc i) es)))
            [acc + ?w..acc + ?w + ?R - 1]"
      by (intro map_cong) (auto simp: add.assoc)
    then have "sum_list (map ?f [acc + ?w..acc + (?w + ?R) - 1])
        = sum_list (map (\<lambda>r. of_bool (E (scan_weighted r (acc + ?w) (Suc i) es)))
            [acc + ?w..acc + ?w + ?R - 1])"
      by (rule arg_cong)
    also have "\<dots> = ?rest"
      by (rule Cons.IH [OF nonneg])
    finally show ?thesis .
  qed
  have "sum_list (map ?f [acc..acc + (?w + ?R) - 1])
      = of_int ?w * of_bool (E (Some i)) + ?rest"
    by (simp only: split head tail)
  then show ?case by simp
qed

lemma random_choose_weighted_prob:
  assumes "\<forall>e\<in>set choices. 0 \<le> snd e" and "0 < sum_list (map snd choices)"
  shows "prob (random_choose_weighted choices) E
     = sum_list (map (\<lambda>(j, e). of_int (snd e) * of_bool (E (Some j))) (enumerate 0 choices))
       / of_int (sum_list (map snd choices))"
  using scan_weighted_sum [OF assms(1), of E 0 0] assms(2)
  by (simp add: random_choose_weighted_def total_weight_sum prob_random2 prob_return)

lemma enumerate_map_snd:
  "map (\<lambda>(j, e). g j (snd e)) (enumerate n (map (\<lambda>x. (x, f x)) xs))
     = map (\<lambda>(j, x). g j (f x)) (enumerate n xs)"
  by (induction xs arbitrary: n) auto

lemma enumerate_nth:
  "map (\<lambda>(j, e). g (es ! j) e) (enumerate 0 es) = map (\<lambda>e. g e e) es"
  by (rule nth_equalityI) (auto simp: nth_enumerate_eq)

lemma enumerate_nth_map:
  "map (\<lambda>(j, e). g e (map f es ! j)) (enumerate 0 es) = map (\<lambda>e. g e (f e)) es"
  by (rule nth_equalityI) (auto simp: nth_enumerate_eq)

section \<open>The primitives are distributions\<close>

lemma sum_list_single:
  fixes c :: rat
  shows "distinct xs \<Longrightarrow>
    sum_list (map (\<lambda>x. if x = k then c else 0) xs) = (if k \<in> set xs then c else 0)"
  by (induction xs) auto

lemma uniform_below_prob:
  "0 \<le> k \<Longrightarrow> k < n \<Longrightarrow> prob (uniform_below n) (\<lambda>r. r = k) = 1 / of_int n"
  by (simp add: prob_def uniform_below_def o_def sum_list_single)

lemma uniform_below_outcomes: "outcomes (uniform_below n) = {0..<n}"
  by (auto simp: outcomes_def uniform_below_def image_image)

lemma random2_total: "prob (random2 m) (\<lambda>r. True) = 1"
proof (cases "m \<le> 0")
  case True
  then show ?thesis by (simp add: random2_def prob_return)
next
  case False
  then have "sum_list (map (\<lambda>r. 1 / of_int m) [0..m - 1]) = (of_int (m - 1 - 0 + 1) * (1 / of_int m) :: rat)"
    by (intro sum_upto_const) auto
  with False show ?thesis by (simp add: random2_def prob_def o_def)
qed

lemma random2_positive: "(r, p) \<in> set (random2 m) \<Longrightarrow> 0 < p"
  by (auto simp: random2_def return_dist_def split: if_splits)

lemma x_chance_in_y_total: "prob (x_chance_in_y x y) (\<lambda>b. True) = 1"
  by (simp add: x_chance_in_y_def prob_def return_dist_def)

lemma x_chance_in_y_positive: "(b, p) \<in> set (x_chance_in_y x y) \<Longrightarrow> 0 < p"
  by (auto simp: x_chance_in_y_def return_dist_def split: if_splits)

section \<open>The modelled functions are distributions\<close>

lemma prob_total_bind:
  assumes "prob d (\<lambda>_. True) = 1" and "\<And>x. prob (f x) (\<lambda>_. True) = 1"
  shows "prob (bind_dist d f) (\<lambda>_. True) = 1"
proof -
  have "prob (bind_dist d f) (\<lambda>_. True) = sum_list (map (\<lambda>(x, p). p * 1) d)"
    by (simp only: prob_bind assms(2))
  also have "\<dots> = prob d (\<lambda>_. True)"
    by (simp add: prob_def split_beta)
  finally show ?thesis by (simp add: assms(1))
qed

lemma random_choose_weighted_total: "prob (random_choose_weighted choices) (\<lambda>_. True) = 1"
  by (simp add: random_choose_weighted_def Let_def prob_total_bind random2_total prob_return)

lemma random_choose_weighted_fixed_total:
  "prob (random_choose_weighted_fixed choices) (\<lambda>_. True) = 1"
  by (simp add: random_choose_weighted_fixed_def Let_def prob_total_bind random2_total
      prob_return)

lemma random_choose_weighted_args_total:
  "prob (random_choose_weighted_args cweight cur args) (\<lambda>_. True) = 1"
  by (induction args arbitrary: cweight cur)
    (auto simp: prob_return intro!: prob_total_bind random2_total)

lemma choose_weighted_loop_total:
  "prob (choose_weighted_loop weight items xs result found totalweight) (\<lambda>_. True) = 1"
  by (induction items arbitrary: xs result found totalweight)
    (auto simp: prob_return Let_def intro!: prob_total_bind x_chance_in_y_total)

lemma shuffle_loop_total: "prob (shuffle_loop n xs) (\<lambda>_. True) = 1"
proof (induction n xs rule: shuffle_loop.induct)
  case (1 n xs)
  show ?case
  proof (cases "n > 1")
    case True
    have "prob (bind_dist (random2 (int n))
          (\<lambda>i. shuffle_loop (n - 1) (iter_swap xs (nat i) (n - 1)))) (\<lambda>_. True) = 1"
      by (intro prob_total_bind random2_total "1.IH" True)
    with True show ?thesis
      by (subst shuffle_loop.simps) simp
  next
    case False
    then show ?thesis by (subst shuffle_loop.simps) (simp add: prob_return)
  qed
qed

lemma choose_random_weighted_loop_total:
  "prob (choose_random_weighted_loop ws cnt totalweight result) (\<lambda>_. True) = 1"
  by (induction ws arbitrary: cnt totalweight result)
    (auto simp: prob_return Let_def intro!: prob_total_bind random2_total)

lemma choose_random_weighted_total: "prob (choose_random_weighted ws) (\<lambda>_. True) = 1"
  by (simp add: choose_random_weighted_def prob_total_bind choose_random_weighted_loop_total
      prob_return)

section \<open>The sums of non-negative weights stay below their total\<close>

lemma partial_sum_range:
  "\<forall>w\<in>set ws. (0::int) \<le> w \<Longrightarrow>
     0 \<le> sum_list (take n ws) \<and> sum_list (take n ws) \<le> sum_list ws"
proof -
  assume nonneg: "\<forall>w\<in>set ws. (0::int) \<le> w"
  have "sum_list ws = sum_list (take n ws) + sum_list (drop n ws)"
    by (metis append_take_drop_id sum_list_append)
  moreover have "0 \<le> sum_list (take n ws)" and "0 \<le> sum_list (drop n ws)"
    using nonneg by (auto intro!: sum_list_nonneg dest: in_set_takeD in_set_dropD)
  ultimately show ?thesis by simp
qed

lemma total_weight_range:
  "\<forall>e\<in>set choices. 0 \<le> snd e \<Longrightarrow>
     0 \<le> total_weight 0 (take n choices)
     \<and> total_weight 0 (take n choices) \<le> total_weight 0 choices"
  using partial_sum_range [of "map snd choices" n]
  by (simp add: total_weight_sum take_map)

section \<open>A node keeps a fraction in range\<close>

lemma valid_node_resolve:
  "valid_node node \<Longrightarrow> valid_fraction fresh \<Longrightarrow>
     valid_fraction (fst (resolve fresh node)) \<and> valid_node (snd (resolve fresh node))
     \<and> fraction (snd (resolve fresh node)) = Some (fst (resolve fresh node))"
  by (auto simp: resolve_def valid_node_def split: option.splits)

section \<open>Within the range of int the 32-bit sums are the sums\<close>

lemma int32_id: "- 2147483648 \<le> x \<Longrightarrow> x \<le> INT_MAX \<Longrightarrow> int32 x = x"
  by (simp add: int32_def INT_MAX_def)

lemma total_weight_int32_eq:
  "0 \<le> tot \<Longrightarrow> \<forall>e\<in>set es. 0 \<le> snd e \<Longrightarrow> tot + sum_list (map snd es) \<le> INT_MAX \<Longrightarrow>
     total_weight_int32 tot es = total_weight tot es"
proof (induction es arbitrary: tot)
  case Nil
  then show ?case by simp
next
  case (Cons e es)
  then have w0: "0 \<le> snd e" and nonneg: "\<forall>e\<in>set es. 0 \<le> snd e" by auto
  then have "0 \<le> sum_list (map snd es)" by (intro sum_list_nonneg) auto
  with Cons.prems w0 have "int32 (tot + snd e) = tot + snd e"
    by (intro int32_id) auto
  with Cons.IH [of "tot + snd e"] Cons.prems w0 nonneg show ?case
    by (simp add: add.assoc)
qed

lemma scan_weighted_int32_eq:
  "0 \<le> acc \<Longrightarrow> \<forall>e\<in>set es. 0 \<le> snd e \<Longrightarrow> acc + sum_list (map snd es) \<le> INT_MAX \<Longrightarrow>
     scan_weighted_int32 r acc i es = scan_weighted r acc i es"
proof (induction es arbitrary: acc i)
  case Nil
  then show ?case by simp
next
  case (Cons e es)
  then have w0: "0 \<le> snd e" and nonneg: "\<forall>e\<in>set es. 0 \<le> snd e" by auto
  then have "0 \<le> sum_list (map snd es)" by (intro sum_list_nonneg) auto
  with Cons.prems w0 have "int32 (acc + snd e) = acc + snd e"
    by (intro int32_id) auto
  with Cons.IH [of "acc + snd e" "Suc i"] Cons.prems w0 nonneg show ?case
    by (simp add: add.assoc Let_def cong: if_cong)
qed

lemma random_choose_weighted_int32_eq:
  assumes "\<forall>e\<in>set choices. 0 \<le> snd e" and "sum_list (map snd choices) \<le> INT_MAX"
  shows "random_choose_weighted_int32 choices = random_choose_weighted choices"
  using assms
  by (simp add: random_choose_weighted_int32_def random_choose_weighted_def
      total_weight_int32_eq scan_weighted_int32_eq)

lemma random_choose_weighted_args_int32_eq:
  "0 \<le> c \<Longrightarrow> \<forall>a\<in>set args. 0 \<le> fst a \<Longrightarrow> c + sum_list (map fst args) \<le> INT_MAX \<Longrightarrow>
     random_choose_weighted_args_int32 c cur args = random_choose_weighted_args c cur args"
proof (induction args arbitrary: c cur)
  case Nil
  then show ?case by simp
next
  case (Cons a args)
  obtain w v where a: "a = (w, v)" by (cases a)
  with Cons.prems have w0: "0 \<le> w" and nonneg: "\<forall>a\<in>set args. 0 \<le> fst a" by auto
  then have "0 \<le> sum_list (map fst args)" by (intro sum_list_nonneg) auto
  with Cons.prems w0 a have wrap: "int32 (c + w) = c + w"
    by (intro int32_id) auto
  have "random_choose_weighted_args_int32 (c + w) x args
      = random_choose_weighted_args (c + w) x args" for x
    using Cons.prems w0 nonneg a by (intro Cons.IH) (auto simp: add.assoc)
  then show ?case by (simp add: a wrap cong: if_cong)
qed

lemma choose_weighted_loop_int32_eq:
  "0 \<le> tw \<Longrightarrow> \<forall>x\<in>set items. 0 \<le> weight x \<Longrightarrow>
   tw + sum_list (map weight items) \<le> INT_MAX \<Longrightarrow>
     choose_weighted_loop_int32 weight items xs result found tw
       = choose_weighted_loop weight items xs result found tw"
proof (induction items arbitrary: tw xs result found)
  case Nil
  then show ?case by simp
next
  case (Cons x items)
  then have w0: "0 \<le> weight x" and nonneg: "\<forall>x\<in>set items. 0 \<le> weight x" by auto
  then have "0 \<le> sum_list (map weight items)" by (intro sum_list_nonneg) auto
  with Cons.prems w0 have wrap: "int32 (tw + weight x) = tw + weight x"
    by (intro int32_id) auto
  have "choose_weighted_loop_int32 weight items (Suc xs) res fnd (tw + weight x)
      = choose_weighted_loop weight items (Suc xs) res fnd (tw + weight x)" for res fnd
    using Cons.prems w0 nonneg by (intro Cons.IH) (auto simp: add.assoc)
  then show ?case by (simp add: wrap Let_def cong: if_cong)
qed

lemma random_choose_weighted_iter_int32_eq:
  assumes "\<forall>x\<in>set items. 0 \<le> weight x" and "sum_list (map weight items) \<le> INT_MAX"
  shows "random_choose_weighted_iter_int32 weight items = random_choose_weighted_iter weight items"
  using assms
  by (simp add: random_choose_weighted_iter_int32_def random_choose_weighted_iter_def
      choose_weighted_loop_int32_eq)

section \<open>Claims about the choice from a collection\<close>

lemma random_choose_weighted_exact_scan:
  assumes "\<forall>e\<in>set choices. 0 \<le> snd e"
  shows "(0 < sum_list (map snd choices) \<longrightarrow>
            random_choose_weighted choices =
              bind_dist (uniform_below (sum_list (map snd choices)))
                (\<lambda>r. return_dist (first_exceeding r (map snd choices))))
       \<and> ((\<forall>e\<in>set choices. snd e = 0) \<longrightarrow>
            random_choose_weighted choices = return_dist None)
       \<and> (\<forall>r. 0 \<le> r \<and> r < sum_list (map snd choices) \<longrightarrow>
            prob (uniform_below (sum_list (map snd choices))) (\<lambda>r'. r' = r)
              = 1 / of_int (sum_list (map snd choices)))"
proof (intro conjI impI allI)
  assume "0 < sum_list (map snd choices)"
  then show "random_choose_weighted choices =
      bind_dist (uniform_below (sum_list (map snd choices)))
        (\<lambda>r. return_dist (first_exceeding r (map snd choices)))"
    by (simp add: random_choose_weighted_def total_weight_sum random2_def uniform_below_def
        scan_weighted_first_exceeding Let_def)
next
  assume zero: "\<forall>e\<in>set choices. snd e = 0"
  then have "sum_list (map snd choices) = 0"
    by (rule sum_list_all_zero)
  with zero show "random_choose_weighted choices = return_dist None"
    by (simp add: random_choose_weighted_def total_weight_sum random2_def bind_return_left
        scan_all_zero)
next
  fix r
  assume "0 \<le> r \<and> r < sum_list (map snd choices)"
  then show "prob (uniform_below (sum_list (map snd choices))) (\<lambda>r'. r' = r)
      = 1 / of_int (sum_list (map snd choices))"
    by (simp add: uniform_below_prob)
qed

text \<open>
  C6, as the code has it. For a collection of non-negative weights whose total is at most
  \<open>INT_MAX\<close>, \<^verbatim>\<open>random_choose_weighted\<close> sums all weights, draws a uniform integer \<open>r\<close>
  below the total and returns a pointer to the first entry at which the running sum
  exceeds \<open>r\<close>; when all weights are zero it returns \<^verbatim>\<open>nullptr\<close>. In this range the sums
  in \<^verbatim>\<open>int\<close> are the sums.
\<close>

theorem random_choose_weighted_sum_then_scan:
  assumes "\<forall>e\<in>set choices. 0 \<le> snd e" and "sum_list (map snd choices) \<le> INT_MAX"
  shows "(0 < sum_list (map snd choices) \<longrightarrow>
            random_choose_weighted_int32 choices =
              bind_dist (uniform_below (sum_list (map snd choices)))
                (\<lambda>r. return_dist (first_exceeding r (map snd choices))))
       \<and> ((\<forall>e\<in>set choices. snd e = 0) \<longrightarrow>
            random_choose_weighted_int32 choices = return_dist None)
       \<and> (\<forall>r. 0 \<le> r \<and> r < sum_list (map snd choices) \<longrightarrow>
            prob (uniform_below (sum_list (map snd choices))) (\<lambda>r'. r' = r)
              = 1 / of_int (sum_list (map snd choices)))
       \<and> total_weight_int32 0 choices = sum_list (map snd choices)
       \<and> random_choose_weighted_int32 choices = random_choose_weighted choices"
proof -
  have eq: "random_choose_weighted_int32 choices = random_choose_weighted choices"
    using assms by (rule random_choose_weighted_int32_eq)
  have tot: "total_weight_int32 0 choices = sum_list (map snd choices)"
    using assms by (simp add: total_weight_int32_eq total_weight_sum)
  from random_choose_weighted_exact_scan [OF assms(1)] eq tot show ?thesis
    by simp
qed

theorem random_choose_weighted_sum_then_scan_witness:
  "random_choose_weighted_int32 [(''a'', 0), (''b'', 2), (''c'', 1)] =
     bind_dist (uniform_below 3) (\<lambda>r. return_dist (first_exceeding r [0, 2, 1]))
   \<and> random_choose_weighted_int32 [(''a'', 0), (''b'', 2), (''c'', 1)] =
       [(Some 1, 1 / 3), (Some 1, 1 / 3), (Some 2, 1 / 3)]
   \<and> prob (uniform_below 3) (\<lambda>r'. r' = 2) = 1 / 3
   \<and> random_choose_weighted_int32 [(''a'', 0), (''b'', 0)] = return_dist None"
proof -
  have nonneg: "\<forall>e\<in>set [(''a'', 0::int), (''b'', 2), (''c'', 1)]. 0 \<le> snd e" by simp
  have bound: "sum_list (map snd [(''a'', 0::int), (''b'', 2), (''c'', 1)]) \<le> INT_MAX"
    by (simp add: INT_MAX_def)
  have nonneg0: "\<forall>e\<in>set [(''a'', 0::int), (''b'', 0)]. 0 \<le> snd e" by simp
  have bound0: "sum_list (map snd [(''a'', 0::int), (''b'', 0)]) \<le> INT_MAX"
    by (simp add: INT_MAX_def)
  have run: "random_choose_weighted_int32 [(''a'', 0), (''b'', 2), (''c'', 1)] =
       [(Some 1, 1 / 3), (Some 1, 1 / 3), (Some 2, 1 / 3)]" by code_simp
  from random_choose_weighted_sum_then_scan [OF nonneg bound]
  have "random_choose_weighted_int32 [(''a'', 0), (''b'', 2), (''c'', 1)] =
     bind_dist (uniform_below 3) (\<lambda>r. return_dist (first_exceeding r [0, 2, 1]))"
    and "prob (uniform_below 3) (\<lambda>r'. r' = 2) = 1 / 3"
    by simp_all
  moreover from random_choose_weighted_sum_then_scan [OF nonneg0 bound0]
  have "random_choose_weighted_int32 [(''a'', 0), (''b'', 0)] = return_dist None" by simp
  ultimately show ?thesis using run by simp
qed

text \<open>
  The claim as stated, for every collection of non-negative weights, fails where the
  total leaves the range of \<^verbatim>\<open>int\<close>. For the weights 2147483647 and 1 the total in
  \<^verbatim>\<open>int\<close> is \<open>-2147483648\<close>; \<^verbatim>\<open>random2\<close> returns 0 for it, not a uniform integer below
  2147483648, and the first entry is returned always: the second entry is never chosen,
  although the draw 2147483647 would select it.
\<close>

theorem random_choose_weighted_overflow_counterexample:
  "total_weight_int32 0 [(''a'', 2147483647), (''b'', 1)] = - 2147483648
   \<and> random_choose_weighted_int32 [(''a'', 2147483647), (''b'', 1)] = return_dist (Some 0)
   \<and> first_exceeding 2147483647 [2147483647, 1] = Some 1"
  by (simp add: random_choose_weighted_int32_def int32_def random2_def bind_return_left
      first_exceeding_def)

text \<open>
  C10. \<^verbatim>\<open>random_choose_weighted\<close> never returns a pointer to an entry of weight zero,
  and when the total weight is positive it does not return \<^verbatim>\<open>nullptr\<close>.
\<close>

theorem random_choose_weighted_not_zero_weight:
  "\<forall>ptr\<in>outcomes (random_choose_weighted choices).
      (\<forall>i. ptr = Some i \<longrightarrow> i < length choices \<and> snd (choices ! i) \<noteq> 0)
    \<and> (0 < sum_list (map snd choices) \<longrightarrow> ptr \<noteq> None)"
proof
  fix ptr
  assume "ptr \<in> outcomes (random_choose_weighted choices)"
  then obtain r where r: "r \<in> outcomes (random2 (sum_list (map snd choices)))"
    and ptr: "ptr = scan_weighted r 0 0 choices"
    by (auto simp: random_choose_weighted_def total_weight_sum)
  from r have r0: "0 \<le> r"
    by (rule outcomes_random2_nonneg)
  have "i < length choices \<and> snd (choices ! i) \<noteq> 0" if "ptr = Some i" for i
    using scan_weighted_Some [OF r0, of 0 choices i] that ptr by auto
  moreover have "ptr \<noteq> None" if pos: "0 < sum_list (map snd choices)"
  proof
    assume "ptr = None"
    with ptr r0 scan_weighted_None [of r 0 0 choices]
    have "sum_list (map snd choices) \<le> r" by simp
    with r pos show False by (simp add: outcomes_random2)
  qed
  ultimately show "(\<forall>i. ptr = Some i \<longrightarrow> i < length choices \<and> snd (choices ! i) \<noteq> 0)
    \<and> (0 < sum_list (map snd choices) \<longrightarrow> ptr \<noteq> None)" by blast
qed

theorem random_choose_weighted_not_zero_weight_witness:
  "Some 1 \<in> outcomes (random_choose_weighted [(''a'', 0), (''b'', 2), (''c'', 1)])
   \<and> 0 < sum_list (map snd [(''a'', 0::int), (''b'', 2), (''c'', 1)])
   \<and> snd ([(''a'', 0::int), (''b'', 2), (''c'', 1)] ! 1) \<noteq> 0
   \<and> None \<notin> outcomes (random_choose_weighted [(''a'', 0), (''b'', 2), (''c'', 1)])"
proof -
  have mem: "Some 1 \<in> outcomes (random_choose_weighted [(''a'', 0), (''b'', 2), (''c'', 1)])"
    by code_simp
  have pos: "0 < sum_list (map snd [(''a'', 0::int), (''b'', 2), (''c'', 1)])" by simp
  from random_choose_weighted_not_zero_weight [of "[(''a'', 0), (''b'', 2), (''c'', 1)]"]
    mem pos
  show ?thesis by fastforce
qed

section \<open>Claims about the choice from a fixed vector\<close>

text \<open>
  C5. The choice from a fixed vector of weights skips every entry of weight \<open>\<le> 0\<close>: it
  returns \<open>-1\<close> when every entry is skipped and otherwise the index of an entry of
  positive weight. For the weights \<open>[0,0,5,0]\<close> it always returns 2, for \<open>[0,0,0,0]\<close>
  always \<open>-1\<close>.
\<close>

theorem random_choose_weighted_fixed_skips:
  "(\<forall>k\<in>outcomes (random_choose_weighted_fixed choices).
      if \<forall>w\<in>set choices. w \<le> 0 then k = - 1
      else 0 \<le> k \<and> k < int (length choices) \<and> 0 < choices ! nat k)
   \<and> outcomes (random_choose_weighted_fixed [0, 0, 5, 0]) = {2}
   \<and> outcomes (random_choose_weighted_fixed [0, 0, 0, 0]) = {- 1}"
proof (intro conjI ballI)
  fix k
  assume "k \<in> outcomes (random_choose_weighted_fixed choices)"
  then obtain r where r: "r \<in> outcomes (random2 (sum_list (filter (\<lambda>w. 0 < w) choices)))"
    and k: "k = scan_fixed r 0 0 choices"
    by (auto simp: random_choose_weighted_fixed_def total_positive_sum)
  from r have r0: "0 \<le> r" by (rule outcomes_random2_nonneg)
  from scan_fixed_range [OF r0 _ k [symmetric]]
  have cases: "(k = - 1 \<and> sum_list (filter (\<lambda>w. 0 < w) choices) \<le> r)
     \<or> (0 \<le> k \<and> k < int (length choices) \<and> 0 < choices ! nat k)" by simp
  show "if \<forall>w\<in>set choices. w \<le> 0 then k = - 1
      else 0 \<le> k \<and> k < int (length choices) \<and> 0 < choices ! nat k"
  proof (cases "\<forall>w\<in>set choices. w \<le> 0")
    case True
    have "\<not> (0 \<le> k \<and> k < int (length choices) \<and> 0 < choices ! nat k)"
    proof
      assume idx: "0 \<le> k \<and> k < int (length choices) \<and> 0 < choices ! nat k"
      then have "choices ! nat k \<in> set choices" by (intro nth_mem) auto
      with True idx show False by auto
    qed
    with cases True show ?thesis by simp
  next
    case False
    then have "\<exists>w\<in>set choices. 0 < w" by (meson not_le)
    then have "0 < sum_list (filter (\<lambda>w. 0 < w) choices)"
      by (rule sum_positive_pos)
    with r have "r < sum_list (filter (\<lambda>w. 0 < w) choices)"
      by (simp add: outcomes_random2)
    with cases False show ?thesis by auto
  qed
next
  show "outcomes (random_choose_weighted_fixed [0, 0, 5, 0]) = {2}" by code_simp
next
  show "outcomes (random_choose_weighted_fixed [0, 0, 0, 0]) = {- 1}" by code_simp
qed

theorem random_choose_weighted_fixed_skips_witness:
  "1 \<in> outcomes (random_choose_weighted_fixed [- 3, 4, 0, 2])
   \<and> 0 < [- 3, 4, 0, 2 :: int] ! nat 1
   \<and> outcomes (random_choose_weighted_fixed [- 3, 4, 0, 2]) = {1, 3}
   \<and> - 1 \<in> outcomes (random_choose_weighted_fixed [0, - 2])"
proof -
  have mem: "1 \<in> outcomes (random_choose_weighted_fixed [- 3, 4, 0, 2])" by code_simp
  have all: "outcomes (random_choose_weighted_fixed [- 3, 4, 0, 2]) = {1, 3}" by code_simp
  have none: "- 1 \<in> outcomes (random_choose_weighted_fixed [0, - 2])" by code_simp
  from random_choose_weighted_fixed_skips [of "[- 3, 4, 0, 2]"] mem
  have "0 < [- 3, 4, 0, 2 :: int] ! nat 1" by fastforce
  with mem all none show ?thesis by simp
qed

section \<open>Claims about choose_random_weighted\<close>

text \<open>
  C9. \<^verbatim>\<open>choose_random_weighted\<close> fails its assertion when the range is empty or every
  weight is zero; when some weight is positive it returns the position of an element of
  the range, so the assertion \<^verbatim>\<open>result >= 0\<close> holds.
\<close>

theorem choose_random_weighted_asserts:
  "((\<forall>w\<in>set ws. w = 0) \<longrightarrow>
       outcomes (choose_random_weighted ws) = {Inl Assertion_Failed})
   \<and> ((\<exists>w\<in>set ws. 0 < w) \<longrightarrow>
       (\<forall>res\<in>outcomes (choose_random_weighted ws).
           \<exists>k. res = Inr k \<and> 0 \<le> k \<and> k < int (length ws)))"
proof (intro conjI impI ballI)
  assume "\<forall>w\<in>set ws. w = 0"
  then show "outcomes (choose_random_weighted ws) = {Inl Assertion_Failed}"
    by (simp add: choose_random_weighted_def choose_random_weighted_loop_all_zero)
next
  fix res
  assume pos: "\<exists>w\<in>set ws. 0 < w"
    and "res \<in> outcomes (choose_random_weighted ws)"
  then obtain k where k: "k \<in> outcomes (choose_random_weighted_loop ws 0 0 (- 1))"
    and res: "res = (if k \<ge> 0 then Inr k else Inl Assertion_Failed)"
    by (auto simp: choose_random_weighted_def)
  from choose_random_weighted_loop_found [OF _ pos k]
  have "0 \<le> k \<and> k < int (length ws)" by simp
  with res show "\<exists>k. res = Inr k \<and> 0 \<le> k \<and> k < int (length ws)" by auto
qed

theorem choose_random_weighted_asserts_witness:
  "outcomes (choose_random_weighted []) = {Inl Assertion_Failed}
   \<and> outcomes (choose_random_weighted [0, 0]) = {Inl Assertion_Failed}
   \<and> outcomes (choose_random_weighted [0, 2, 1]) = {Inr 1, Inr 2}
   \<and> (\<exists>k. (Inr 2 :: error + int) = Inr k \<and> 0 \<le> k \<and> k < int (length [0, 2, 1 :: int]))"
proof -
  have "\<forall>w\<in>set ([] :: int list). w = 0" and "\<forall>w\<in>set [0, 0 :: int]. w = 0" by simp_all
  with choose_random_weighted_asserts [of "[]"] choose_random_weighted_asserts [of "[0, 0]"]
  have "outcomes (choose_random_weighted []) = {Inl Assertion_Failed}"
    and "outcomes (choose_random_weighted [0, 0]) = {Inl Assertion_Failed}" by blast+
  moreover have run: "outcomes (choose_random_weighted [0, 2, 1]) = {Inr 1, Inr 2}"
    by code_simp
  moreover have "\<exists>w\<in>set [0, 2, 1 :: int]. 0 < w" by simp
  with choose_random_weighted_asserts [of "[0, 2, 1]"] run
  have "\<exists>k. (Inr 2 :: error + int) = Inr k \<and> 0 \<le> k \<and> k < int (length [0, 2, 1 :: int])"
    by blast
  ultimately show ?thesis by blast
qed

section \<open>Claims about the shuffle\<close>

text \<open>
  C4. \<^verbatim>\<open>shuffle_array\<close> performs the steps of the Fisher-Yates shuffle: for \<open>n\<close> from the
  length down to 2 it exchanges the element at a uniformly chosen index below \<open>n\<close> with
  the one at \<open>n - 1\<close>. Every result is a permutation of the input.
\<close>

theorem shuffle_array_fisher_yates:
  "shuffle_array xs = fisher_yates xs
   \<and> (\<forall>ys\<in>outcomes (shuffle_array xs). mset ys = mset xs)
   \<and> (\<forall>n i. 0 \<le> i \<and> i < n \<longrightarrow> prob (uniform_below n) (\<lambda>r. r = i) = 1 / of_int n)"
proof (intro conjI)
  show "shuffle_array xs = fisher_yates xs"
    by (simp only: shuffle_array_def fisher_yates_def shuffle_loop_fisher_yates)
next
  show "\<forall>ys\<in>outcomes (shuffle_array xs). mset ys = mset xs"
    unfolding shuffle_array_def by (blast intro: shuffle_loop_mset [OF order_refl])
next
  show "\<forall>n i. 0 \<le> i \<and> i < n \<longrightarrow> prob (uniform_below n) (\<lambda>r. r = i) = 1 / of_int n"
    by (simp add: uniform_below_prob)
qed

theorem shuffle_array_fisher_yates_witness:
  "shuffle_array [1, 2, 3 :: nat] = fisher_yates [1, 2, 3]
   \<and> [2, 3, 1] \<in> outcomes (shuffle_array [1, 2, 3 :: nat])
   \<and> mset [2, 3, 1] = mset [1, 2, 3 :: nat]
   \<and> prob (uniform_below 3) (\<lambda>r. r = 2) = 1 / 3"
proof -
  have mem: "[2, 3, 1] \<in> outcomes (shuffle_array [1, 2, 3 :: nat])" by code_simp
  have idx: "(0::int) \<le> 2 \<and> (2::int) < 3" by simp
  from shuffle_array_fisher_yates [of "[1, 2, 3 :: nat]"] mem idx
  have "shuffle_array [1, 2, 3 :: nat] = fisher_yates [1, 2, 3]"
    and "mset [2, 3, 1] = mset [1, 2, 3 :: nat]"
    and "prob (uniform_below 3) (\<lambda>r. r = 2) = 1 / rat_of_int 3"
    by blast+
  with mem show ?thesis by simp
qed

section \<open>Claims about inputs of total weight zero\<close>

text \<open>
  C2, as the code has it. With a total weight of zero the choice from a collection
  returns \<^verbatim>\<open>nullptr\<close>, the choice from a fixed vector returns \<open>-1\<close> and the choice from
  an iterator returns the past-the-end iterator. The choice among arguments returns a
  value of the arguments' type and has no result that means "none": with all weights
  zero it returns its first item.
\<close>

theorem zero_weight_no_selection:
  "((\<forall>e\<in>set choices. 0 \<le> snd e) \<and> sum_list (map snd choices) = 0 \<longrightarrow>
       outcomes (random_choose_weighted choices) = {None})
   \<and> (total_positive 0 ws = 0 \<longrightarrow> outcomes (random_choose_weighted_fixed ws) = {- 1})
   \<and> ((\<forall>item\<in>set items. 0 \<le> weight item) \<and> sum_list (map weight items) = 0 \<longrightarrow>
       outcomes (random_choose_weighted_iter weight items) = {length items})
   \<and> (cweight = 0 \<and> (\<forall>a\<in>set args. fst a = 0) \<longrightarrow>
       outcomes (random_choose_weighted_args cweight cur args) = {cur})"
proof (intro conjI impI; (elim conjE)?)
  assume "\<forall>e\<in>set choices. 0 \<le> snd e" and tot: "sum_list (map snd choices) = 0"
  then have "\<forall>w\<in>set (map snd choices). w = 0"
    by (intro sum_list_nonneg_zero) auto
  then have "\<forall>e\<in>set choices. snd e = 0" by simp
  with tot show "outcomes (random_choose_weighted choices) = {None}"
    by (simp add: random_choose_weighted_def total_weight_sum outcomes_random2 scan_all_zero)
next
  assume "total_positive 0 ws = 0"
  then have "\<not> (\<exists>w\<in>set ws. 0 < w)"
    using sum_positive_pos [of ws] by (auto simp: total_positive_sum)
  then have "\<forall>w\<in>set ws. w \<le> 0" by (meson not_le)
  then show "outcomes (random_choose_weighted_fixed ws) = {- 1}"
    by (simp add: random_choose_weighted_fixed_def total_positive_sum filter_positive_empty
        outcomes_random2 scan_fixed_all_skipped)
next
  assume "\<forall>item\<in>set items. 0 \<le> weight item" and "sum_list (map weight items) = 0"
  then have "\<forall>w\<in>set (map weight items). w = 0"
    by (intro sum_list_nonneg_zero) auto
  then have "\<forall>item\<in>set items. weight item = 0" by simp
  then show "outcomes (random_choose_weighted_iter weight items) = {length items}"
    by (simp add: random_choose_weighted_iter_def choose_weighted_loop_all_zero)
next
  assume "cweight = 0" and "\<forall>a\<in>set args. fst a = 0"
  then show "outcomes (random_choose_weighted_args cweight cur args) = {cur}"
    by (simp add: random_choose_weighted_args_all_zero)
qed

theorem zero_weight_no_selection_witness:
  "outcomes (random_choose_weighted [(''a'', 0), (''b'', 0)]) = {None}
   \<and> outcomes (random_choose_weighted_fixed [0, - 1, 0]) = {- 1}
   \<and> outcomes (random_choose_weighted_iter (\<lambda>x. x) [0, 0]) = {2}
   \<and> outcomes (random_choose_weighted_args 0 ''a'' [(0, ''b'')]) = {''a''}"
proof -
  have "(\<forall>e\<in>set [(''a'', 0::int), (''b'', 0)]. 0 \<le> snd e)
      \<and> sum_list (map snd [(''a'', 0::int), (''b'', 0)]) = 0" by simp
  moreover have "total_positive 0 [0, - 1, 0] = 0" by simp
  moreover have "(\<forall>item\<in>set [0, 0 :: int]. 0 \<le> (\<lambda>x. x) item)
      \<and> sum_list (map (\<lambda>x. x) [0, 0 :: int]) = 0" by simp
  moreover have "(0::int) = 0 \<and> (\<forall>a\<in>set [(0::int, ''b'')]. fst a = 0)" by simp
  ultimately show ?thesis
    using zero_weight_no_selection [where choices = "[(''a'', 0), (''b'', 0)]"
        and ws = "[0, - 1, 0]" and items = "[0, 0]" and weight = "\<lambda>x. x"
        and cweight = 0 and args = "[(0, ''b'')]" and cur = "''a''"]
    by simp
qed

text \<open>
  The claim as stated fails for the choice among arguments: with weights 0 and 0 the
  result is the first item, an ordinary element, the same result as with weights 1
  and 0.
\<close>

theorem zero_weight_args_counterexample:
  "outcomes (random_choose_weighted_args 0 ''first'' [(0, ''second'')]) = {''first''}
   \<and> outcomes (random_choose_weighted_args 1 ''first'' [(0, ''second'')]) = {''first''}"
  by code_simp

section \<open>Claims about the streaming choice\<close>

lemma streaming_args_exact:
  assumes c0: "0 \<le> cweight" and nonneg: "\<forall>a\<in>set args. 0 \<le> fst a"
    and pos: "0 < cweight + sum_list (map fst args)"
  shows "prob (random_choose_weighted_args cweight cur args) E
        = prob (random_choose_weighted ((cur, cweight) # map (\<lambda>(w, v). (v, w)) args))
            (\<lambda>ptr. case ptr of None \<Rightarrow> False | Some j \<Rightarrow> E ((cur # map snd args) ! j))"
proof -
  let ?choices = "(cur, cweight) # map (\<lambda>(w, v). (v, w)) args"
  let ?E = "\<lambda>ptr. case ptr of None \<Rightarrow> False | Some j \<Rightarrow> E ((cur # map snd args) ! j)"
  let ?N = "of_int cweight * of_bool (E cur)
      + sum_list (map (\<lambda>a. of_int (fst a) * of_bool (E (snd a))) args) :: rat"
  let ?D = "of_int (cweight + sum_list (map fst args)) :: rat"
  have fsts: "map fst ?choices = cur # map snd args"
    and snds: "map snd ?choices = cweight # map fst args"
    by (simp_all add: split_beta o_def)
  have "\<forall>e\<in>set ?choices. 0 \<le> snd e" and "0 < sum_list (map snd ?choices)"
    using c0 nonneg pos by (auto simp: snds simp del: list.map)
  then have "prob (random_choose_weighted ?choices) ?E
      = sum_list (map (\<lambda>(j, e). of_int (snd e) * of_bool (E (map fst ?choices ! j)))
          (enumerate 0 ?choices)) / of_int (sum_list (map snd ?choices))"
    by (simp only: random_choose_weighted_prob option.case fsts)
  also have "map (\<lambda>(j, e). of_int (snd e) * of_bool (E (map fst ?choices ! j)))
          (enumerate 0 ?choices)
      = map (\<lambda>e. of_int (snd e) * (of_bool (E (fst e)) :: rat)) ?choices"
    by (rule enumerate_nth_map)
  also have "sum_list (map (\<lambda>e. of_int (snd e) * (of_bool (E (fst e)) :: rat)) ?choices) = ?N"
    by (simp add: split_beta o_def)
  also have "of_int (sum_list (map snd ?choices)) = ?D"
    by (simp only: snds sum_list.Cons)
  finally have batch: "prob (random_choose_weighted ?choices) ?E = ?N / ?D" .
  have stream: "prob (random_choose_weighted_args cweight cur args) E = ?N / ?D"
    by (rule random_choose_weighted_args_prob [OF c0 nonneg pos])
  show ?thesis
    by (simp only: batch stream)
qed

lemma streaming_iter_exact:
  assumes nonneg: "\<forall>item\<in>set items. 0 \<le> weight item"
    and pos: "0 < sum_list (map weight items)"
  shows "prob (random_choose_weighted_iter weight items) F
        = prob (random_choose_weighted (map (\<lambda>item. (item, weight item)) items))
            (\<lambda>ptr. case ptr of None \<Rightarrow> F (length items) | Some j \<Rightarrow> F j)"
proof -
  let ?choices = "map (\<lambda>item. (item, weight item)) items"
  let ?F = "\<lambda>ptr. case ptr of None \<Rightarrow> F (length items) | Some j \<Rightarrow> F j"
  let ?N = "sum_list (map (\<lambda>(j, item). of_int (weight item) * of_bool (F j))
      (enumerate 0 items)) :: rat"
  let ?D = "of_int (sum_list (map weight items)) :: rat"
  have snds: "map snd ?choices = map weight items" by (simp add: o_def)
  have "\<forall>e\<in>set ?choices. 0 \<le> snd e" and "0 < sum_list (map snd ?choices)"
    using nonneg pos by (auto simp: snds simp del: map_map)
  then have "prob (random_choose_weighted ?choices) ?F
      = sum_list (map (\<lambda>(j, e). of_int (snd e) * of_bool (F j)) (enumerate 0 ?choices))
          / of_int (sum_list (map snd ?choices))"
    by (simp only: random_choose_weighted_prob option.case)
  also have "map (\<lambda>(j, e). of_int (snd e) * (of_bool (F j) :: rat)) (enumerate 0 ?choices)
      = map (\<lambda>(j, item). of_int (weight item) * of_bool (F j)) (enumerate 0 items)"
    by (rule enumerate_map_snd)
  also have "of_int (sum_list (map snd ?choices)) = ?D"
    by (simp only: snds)
  finally have batch: "prob (random_choose_weighted ?choices) ?F = ?N / ?D" .
  have "prob (choose_weighted_loop weight items 0 0 False 0) F
      = (of_int 0 * of_bool (F 0) + ?N) / of_int (0 + sum_list (map weight items))"
    using nonneg pos by (intro choose_weighted_loop_prob) auto
  then have stream: "prob (random_choose_weighted_iter weight items) F = ?N / ?D"
    by (simp add: random_choose_weighted_iter_def)
  show ?thesis
    by (simp only: batch stream)
qed

lemma streaming_args_step_exact:
  assumes "0 \<le> cweight" "0 \<le> nweight" "0 < cweight + nweight" "nxt \<noteq> cur"
  shows "prob (random_choose_weighted_args cweight cur [(nweight, nxt)]) (\<lambda>v. v = nxt)
      = of_int nweight / of_int (cweight + nweight)"
  using assms
    random_choose_weighted_args_prob [of cweight "[(nweight, nxt)]" cur "\<lambda>v. v = nxt"]
  by simp

lemma streaming_iter_step_exact:
  assumes "0 < totalweight" "0 \<le> weight item" "result \<noteq> xs"
  shows "prob (choose_weighted_loop weight [item] xs result True totalweight) (\<lambda>p. p = xs)
      = of_int (weight item) / of_int (totalweight + weight item)"
  using assms
    choose_weighted_loop_prob [of totalweight "[item]" weight True xs result "\<lambda>p. p = xs"]
  by simp

text \<open>
  C3, as the code has it. The choice among arguments and the choice from an iterator pass
  over their input once from left to right with a running total of the weights; an
  element of weight \<open>w\<close> replaces the current candidate with probability \<open>w\<close> divided by
  the running total (which includes \<open>w\<close>). For non-negative weights of positive total at
  most \<open>INT_MAX\<close>, the selected position has the same distribution as in the choice from
  a collection, which sums first and scans afterwards.
\<close>

theorem streaming_choice_distribution:
  "(0 \<le> cweight \<and> (\<forall>a\<in>set args. 0 \<le> fst a) \<and> 0 < cweight + sum_list (map fst args)
      \<and> cweight + sum_list (map fst args) \<le> INT_MAX \<longrightarrow>
      prob (random_choose_weighted_args_int32 cweight cur args) E
        = prob (random_choose_weighted_int32 ((cur, cweight) # map (\<lambda>(w, v). (v, w)) args))
            (\<lambda>ptr. case ptr of None \<Rightarrow> False | Some j \<Rightarrow> E ((cur # map snd args) ! j)))
   \<and> ((\<forall>item\<in>set items. 0 \<le> weight item) \<and> 0 < sum_list (map weight items)
      \<and> sum_list (map weight items) \<le> INT_MAX \<longrightarrow>
      prob (random_choose_weighted_iter_int32 weight items) F
        = prob (random_choose_weighted_int32 (map (\<lambda>item. (item, weight item)) items))
            (\<lambda>ptr. case ptr of None \<Rightarrow> F (length items) | Some j \<Rightarrow> F j))
   \<and> (0 \<le> cweight \<and> 0 \<le> nweight \<and> 0 < cweight + nweight \<and> cweight + nweight \<le> INT_MAX
      \<and> nxt \<noteq> cur \<longrightarrow>
      prob (random_choose_weighted_args_int32 cweight cur [(nweight, nxt)]) (\<lambda>v. v = nxt)
        = of_int nweight / of_int (cweight + nweight))
   \<and> (0 < totalweight \<and> 0 \<le> weight item \<and> totalweight + weight item \<le> INT_MAX
      \<and> result \<noteq> xs \<longrightarrow>
      prob (choose_weighted_loop_int32 weight [item] xs result True totalweight) (\<lambda>p. p = xs)
        = of_int (weight item) / of_int (totalweight + weight item))"
proof (intro conjI impI; elim conjE)
  let ?choices = "(cur, cweight) # map (\<lambda>(w, v). (v, w)) args"
  assume c0: "0 \<le> cweight" and nonneg: "\<forall>a\<in>set args. 0 \<le> fst a"
    and pos: "0 < cweight + sum_list (map fst args)"
    and bound: "cweight + sum_list (map fst args) \<le> INT_MAX"
  have snds: "map snd ?choices = cweight # map fst args"
    by (simp add: split_beta o_def)
  have "\<forall>e\<in>set ?choices. 0 \<le> snd e" and "sum_list (map snd ?choices) \<le> INT_MAX"
    using c0 nonneg bound by (auto simp: snds simp del: list.map)
  then have batch: "random_choose_weighted_int32 ?choices = random_choose_weighted ?choices"
    by (rule random_choose_weighted_int32_eq)
  have stream: "random_choose_weighted_args_int32 cweight cur args
      = random_choose_weighted_args cweight cur args"
    using c0 nonneg bound by (rule random_choose_weighted_args_int32_eq)
  show "prob (random_choose_weighted_args_int32 cweight cur args) E
      = prob (random_choose_weighted_int32 ?choices)
          (\<lambda>ptr. case ptr of None \<Rightarrow> False | Some j \<Rightarrow> E ((cur # map snd args) ! j))"
    unfolding batch stream by (rule streaming_args_exact [OF c0 nonneg pos])
next
  let ?choices = "map (\<lambda>item. (item, weight item)) items"
  assume nonneg: "\<forall>item\<in>set items. 0 \<le> weight item"
    and pos: "0 < sum_list (map weight items)"
    and bound: "sum_list (map weight items) \<le> INT_MAX"
  have snds: "map snd ?choices = map weight items" by (simp add: o_def)
  have "\<forall>e\<in>set ?choices. 0 \<le> snd e" and "sum_list (map snd ?choices) \<le> INT_MAX"
    using nonneg bound by (auto simp: snds simp del: map_map)
  then have batch: "random_choose_weighted_int32 ?choices = random_choose_weighted ?choices"
    by (rule random_choose_weighted_int32_eq)
  have stream: "random_choose_weighted_iter_int32 weight items
      = random_choose_weighted_iter weight items"
    using nonneg bound by (rule random_choose_weighted_iter_int32_eq)
  show "prob (random_choose_weighted_iter_int32 weight items) F
      = prob (random_choose_weighted_int32 ?choices)
          (\<lambda>ptr. case ptr of None \<Rightarrow> F (length items) | Some j \<Rightarrow> F j)"
    unfolding batch stream
    by (rule streaming_iter_exact [where weight = weight and items = items, OF nonneg pos])
next
  assume h: "0 \<le> cweight" "0 \<le> nweight" "0 < cweight + nweight" "nxt \<noteq> cur"
    and bound: "cweight + nweight \<le> INT_MAX"
  have eq: "random_choose_weighted_args_int32 cweight cur [(nweight, nxt)]
      = random_choose_weighted_args cweight cur [(nweight, nxt)]"
    using h bound by (intro random_choose_weighted_args_int32_eq) auto
  show "prob (random_choose_weighted_args_int32 cweight cur [(nweight, nxt)]) (\<lambda>v. v = nxt)
      = of_int nweight / of_int (cweight + nweight)"
    unfolding eq by (rule streaming_args_step_exact [OF h])
next
  assume h: "0 < totalweight" "0 \<le> weight item" "result \<noteq> xs"
    and bound: "totalweight + weight item \<le> INT_MAX"
  have eq: "choose_weighted_loop_int32 weight [item] xs result True totalweight
      = choose_weighted_loop weight [item] xs result True totalweight"
    using h bound by (intro choose_weighted_loop_int32_eq) auto
  show "prob (choose_weighted_loop_int32 weight [item] xs result True totalweight) (\<lambda>p. p = xs)
      = of_int (weight item) / of_int (totalweight + weight item)"
    unfolding eq
    by (rule streaming_iter_step_exact [where weight = weight and item = item, OF h])
qed

theorem streaming_choice_distribution_witness:
  "prob (random_choose_weighted_args_int32 1 ''a'' [(2, ''b''), (1, ''c'')]) (\<lambda>v. v = ''b'')
     = 1 / 2
   \<and> prob (random_choose_weighted_iter_int32 (\<lambda>x. x) [1, 2, 1]) (\<lambda>p. p = 1) = 1 / 2
   \<and> prob (random_choose_weighted_args_int32 1 ''a'' [(2, ''b'')]) (\<lambda>v. v = ''b'') = 2 / 3
   \<and> prob (choose_weighted_loop_int32 (\<lambda>x. x) [2] 1 0 True 1) (\<lambda>p. p = 1) = 2 / 3"
proof -
  have batch_args:
    "prob (random_choose_weighted_int32
             ((''a'', 1) # map (\<lambda>(w, v). (v, w)) [(2, ''b''), (1, ''c'')]))
       (\<lambda>ptr. case ptr of None \<Rightarrow> False
               | Some j \<Rightarrow> (''a'' # map snd [(2 :: int, ''b''), (1, ''c'')]) ! j = ''b'') = 1 / 2"
    by code_simp
  have batch_iter:
    "prob (random_choose_weighted_int32 (map (\<lambda>item. (item, item)) [1, 2, 1]))
       (\<lambda>ptr. case ptr of None \<Rightarrow> length [1, 2, 1 :: int] = 1 | Some j \<Rightarrow> j = 1) = 1 / 2"
    by code_simp
  have h1: "0 \<le> (1::int) \<and> (\<forall>a\<in>set [(2::int, ''b''), (1, ''c'')]. 0 \<le> fst a)
      \<and> 0 < (1::int) + sum_list (map fst [(2::int, ''b''), (1, ''c'')])
      \<and> (1::int) + sum_list (map fst [(2::int, ''b''), (1, ''c'')]) \<le> INT_MAX"
    by (simp add: INT_MAX_def)
  have h2: "(\<forall>item\<in>set [1, 2, 1 :: int]. 0 \<le> item)
      \<and> 0 < sum_list (map (\<lambda>x. x) [1, 2, 1 :: int])
      \<and> sum_list (map (\<lambda>x. x) [1, 2, 1 :: int]) \<le> INT_MAX"
    by (simp add: INT_MAX_def)
  have h3: "0 \<le> (1::int) \<and> 0 \<le> (2::int) \<and> 0 < (1::int) + 2 \<and> (1::int) + 2 \<le> INT_MAX
      \<and> ''b'' \<noteq> ''a''"
    by (simp add: INT_MAX_def)
  have h4: "0 < (1::int) \<and> 0 \<le> (2::int) \<and> (1::int) + 2 \<le> INT_MAX \<and> (0::nat) \<noteq> 1"
    by (simp add: INT_MAX_def)
  from streaming_choice_distribution [where cweight = 1 and cur = "''a''"
      and args = "[(2, ''b''), (1, ''c'')]" and E = "\<lambda>v. v = ''b''"
      and weight = "\<lambda>x. x" and items = "[1, 2, 1]" and F = "\<lambda>p. p = 1"
      and nweight = 2 and nxt = "''b''" and totalweight = 1 and item = 2
      and result = 0 and xs = 1]
    h1 h2 h3 h4 batch_args batch_iter
  show ?thesis by simp
qed

text \<open>
  The claim as stated, for every input with some positive weight, fails where the running
  total leaves the range of \<^verbatim>\<open>int\<close>. For the weights 2147483647 and 1 the choice among
  arguments draws \<^verbatim>\<open>random2(-2147483648)\<close>, which is 0 and below the new weight 1: it
  returns the second item always. The choice from a collection draws 0 as well and
  returns the first entry always.
\<close>

theorem streaming_choice_overflow_counterexample:
  "random_choose_weighted_args_int32 2147483647 ''a'' [(1, ''b'')] = return_dist ''b''
   \<and> random_choose_weighted_int32 [(''a'', 2147483647), (''b'', 1)] = return_dist (Some 0)"
  by (simp add: random_choose_weighted_int32_def int32_def random2_def bind_return_left)

section \<open>Claims about x_chance_in_y\<close>

text \<open>
  C8. \<^verbatim>\<open>x_chance_in_y(x, y)\<close>, on \<^verbatim>\<open>int\<close> and on \<^verbatim>\<open>double\<close>, returns false whenever
  \<open>x \<le> 0\<close> and true whenever \<open>x \<ge> y > 0\<close>, whatever the generator delivers: it has this
  one outcome.
\<close>

theorem x_chance_in_y_certain:
  "(x \<le> 0 \<longrightarrow> x_chance_in_y x y = return_dist False)
   \<and> (0 < y \<and> y \<le> x \<longrightarrow> x_chance_in_y x y = return_dist True)
   \<and> (u \<le> 0 \<longrightarrow> x_chance_in_y_real u v = return_dist False)
   \<and> (0 < v \<and> v \<le> u \<longrightarrow> x_chance_in_y_real u v = return_dist True)"
  by (simp add: x_chance_in_y_def x_chance_in_y_real_def)

theorem x_chance_in_y_certain_witness:
  "x_chance_in_y 0 5 = return_dist False \<and> x_chance_in_y (- 2) 5 = return_dist False
   \<and> x_chance_in_y 5 5 = return_dist True \<and> x_chance_in_y 7 5 = return_dist True
   \<and> x_chance_in_y_real 0 (1 / 2) = return_dist False
   \<and> x_chance_in_y_real (- 3 / 2) (1 / 2) = return_dist False
   \<and> x_chance_in_y_real (1 / 2) (1 / 2) = return_dist True
   \<and> x_chance_in_y_real (5 / 2) (1 / 2) = return_dist True"
  using x_chance_in_y_certain [of 0 5 0 "1 / 2"] x_chance_in_y_certain [of "- 2" 5 "- 3 / 2" "1 / 2"]
    x_chance_in_y_certain [of 5 5 "1 / 2" "1 / 2"] x_chance_in_y_certain [of 7 5 "5 / 2" "1 / 2"]
  by simp

text \<open>
  C7. The generic overload equals the overload on \<^verbatim>\<open>double\<close>, applied to \<^verbatim>\<open>double(x)\<close>
  and \<^verbatim>\<open>double(y)\<close>, whenever \<open>T\<close> or \<open>U\<close> is a floating-point type, and the overload on
  \<^verbatim>\<open>int\<close>, applied to \<^verbatim>\<open>int(x)\<close> and \<^verbatim>\<open>int(y)\<close>, otherwise. The choice is the spec's
  \<open>dispatch\<close> on the two types: it does not read the values.
\<close>

theorem x_chance_in_y_T_dispatch:
  "x_chance_in_y_T x_chance_in_y_double T U x y =
     (case dispatch T U of
        Real_Implementation \<Rightarrow> x_chance_in_y_double (to_double T x) (to_double U y)
      | Integer_Implementation \<Rightarrow> x_chance_in_y (to_int T x) (to_int U y))
   \<and> (is_floating_point T \<or> is_floating_point U \<longrightarrow>
        x_chance_in_y_T x_chance_in_y_double T U x y =
          x_chance_in_y_double (to_double T x) (to_double U y))
   \<and> (\<not> is_floating_point T \<and> \<not> is_floating_point U \<longrightarrow>
        x_chance_in_y_T x_chance_in_y_double T U x y =
          x_chance_in_y (to_int T x) (to_int U y))"
  by (simp add: x_chance_in_y_T_def dispatch_def is_integral_def)

theorem x_chance_in_y_T_dispatch_witness:
  "x_chance_in_y_T (\<lambda>x y. return_dist (x \<ge> y))
       \<lparr>is_floating_point = False, to_double = rat_of_int, to_int = (\<lambda>x. x)\<rparr>
       \<lparr>is_floating_point = True, to_double = (\<lambda>x. x), to_int = floor\<rparr> 1 (1 / 2)
     = return_dist (rat_of_int 1 \<ge> 1 / 2)
   \<and> x_chance_in_y_T (\<lambda>x y. return_dist (x \<ge> y))
       \<lparr>is_floating_point = False, to_double = rat_of_int, to_int = (\<lambda>x. x)\<rparr>
       \<lparr>is_floating_point = False, to_double = rat_of_int, to_int = (\<lambda>x. x)\<rparr> 0 3
     = x_chance_in_y 0 3"
  using x_chance_in_y_T_dispatch [where x_chance_in_y_double = "\<lambda>x y. return_dist (x \<ge> y)"
      and T = "\<lparr>is_floating_point = False, to_double = rat_of_int, to_int = (\<lambda>x. x)\<rparr>"
      and U = "\<lparr>is_floating_point = True, to_double = (\<lambda>x. x), to_int = floor\<rparr>"
      and x = 1 and y = "1 / 2"]
    x_chance_in_y_T_dispatch [where x_chance_in_y_double = "\<lambda>x y. return_dist (x \<ge> y)"
      and T = "\<lparr>is_floating_point = False, to_double = rat_of_int, to_int = (\<lambda>x. x)\<rparr>"
      and U = "\<lparr>is_floating_point = False, to_double = rat_of_int, to_int = (\<lambda>x. x)\<rparr>"
      and x = 0 and y = 3]
  by (simp add: dispatch_def is_integral_def)

section \<open>Claims about the deferred random tree\<close>

text \<open>
  C1. A node answers from one stored fraction, generated at its first query. So
  \<^verbatim>\<open>x_chance_in_y(1,2)\<close> and \<^verbatim>\<open>x_chance_in_y(50,100)\<close> on the same node return the same
  boolean, in either order; a query repeated with the same arguments returns the same
  result and leaves the node as it is; and \<^verbatim>\<open>random2\<close> on a node is monotone in its
  argument.
\<close>

theorem defer_rand_scale_invariant_memoized:
  assumes "valid_node node" and "valid_fraction g1" and "valid_fraction g2"
  shows "fst (defer_x_chance_in_y 50 100 g2 (snd (defer_x_chance_in_y 1 2 g1 node)))
           = fst (defer_x_chance_in_y 1 2 g1 node)
       \<and> fst (defer_x_chance_in_y 1 2 g2 (snd (defer_x_chance_in_y 50 100 g1 node)))
           = fst (defer_x_chance_in_y 50 100 g1 node)
       \<and> (0 < k \<longrightarrow>
            fst (defer_x_chance_in_y (k * x) (k * y) g2 (snd (defer_x_chance_in_y x y g1 node)))
              = fst (defer_x_chance_in_y x y g1 node))
       \<and> defer_x_chance_in_y x y g2 (snd (defer_x_chance_in_y x y g1 node))
           = (fst (defer_x_chance_in_y x y g1 node), snd (defer_x_chance_in_y x y g1 node))
       \<and> defer_random2 m g2 (snd (defer_random2 m g1 node))
           = (fst (defer_random2 m g1 node), snd (defer_random2 m g1 node))
       \<and> (a \<le> b \<longrightarrow>
            fst (defer_random2 a g1 node)
              \<le> fst (defer_random2 b g2 (snd (defer_random2 a g1 node)))
          \<and> fst (defer_random2 a g2 (snd (defer_random2 b g1 node)))
              \<le> fst (defer_random2 b g1 node))"
proof -
  obtain f node' where res: "resolve g1 node = (f, node')" by (cases "resolve g1 node")
  then have again: "resolve g2 node' = (f, node')"
    by (auto simp: resolve_def split: option.splits)
  from res assms(1,2) have "0 \<le> f"
    by (auto simp: resolve_def valid_node_def valid_fraction_def split: option.splits)
  then have mono: "\<lfloor>f * of_int a\<rfloor> \<le> \<lfloor>f * of_int b\<rfloor>" if "a \<le> b"
    using that by (intro floor_mono mult_left_mono) auto
  have half: "(of_int 50 :: rat) / of_int 100 = of_int 1 / of_int 2" by simp
  have scale: "(of_int (k * x) :: rat) / of_int (k * y) = of_int x / of_int y" if "0 < k"
    using that by simp
  show ?thesis
    using mono scale half
    by (simp add: defer_x_chance_in_y_def defer_random2_def res again del: of_int_mult)
qed

theorem defer_rand_scale_invariant_memoized_witness:
  "fst (defer_x_chance_in_y 1 2 (1 / 3) (Defer_Rand None []))
   \<and> fst (defer_x_chance_in_y 50 100 (3 / 4)
            (snd (defer_x_chance_in_y 1 2 (1 / 3) (Defer_Rand None []))))
   \<and> fst (defer_random2 6 (1 / 3) (Defer_Rand None [])) = 2
   \<and> fst (defer_random2 9 (3 / 4) (snd (defer_random2 6 (1 / 3) (Defer_Rand None [])))) = 3"
proof -
  have ok: "valid_node (Defer_Rand None [])" "valid_fraction (1 / 3)" "valid_fraction (3 / 4)"
    by (simp_all add: valid_node_def valid_fraction_def)
  have run: "fst (defer_x_chance_in_y 1 2 (1 / 3) (Defer_Rand None []))"
    "fst (defer_random2 6 (1 / 3) (Defer_Rand None [])) = 2"
    "fst (defer_random2 9 (3 / 4) (snd (defer_random2 6 (1 / 3) (Defer_Rand None [])))) = 3"
    by (simp_all add: defer_x_chance_in_y_def defer_random2_def resolve_def)
  from defer_rand_scale_invariant_memoized [OF ok, of 1 1 2 6 6 9] run
  show ?thesis by simp
qed


end
